theory Spec2Isabelle
  imports Complex_Main "HOL-Library.Sublist"
begin

section \<open>Data model\<close>

text \<open>
  The interfaces of the client page and of the PageSpeed route. A JavaScript \<open>number\<close>
  that arrives through JSON is modelled by its exact rational value; an optional field
  (\<open>fcp?: number\<close>, \<open>error?: string\<close>) is an \<open>option\<close>, with \<open>None\<close> for
  \<open>undefined\<close>; \<open>score: number | null\<close> is an \<open>option\<close> with \<open>None\<close> for \<open>null\<close>.
\<close>

record UrlItem =
  url :: string
  selected :: bool

datatype ScanStatus = Pending | Scanning | Completed | Error

datatype Strategy = Mobile | Desktop

record PageSpeedMetrics =
  performance :: rat
  accessibility :: rat
  bestPractices :: rat
  seo :: rat

record FieldData =
  fcp :: "rat option"
  fid :: "rat option"
  lcp :: "rat option"
  cls :: "rat option"

text \<open>
  A Lighthouse audit as the route reads it (\<open>audit.title\<close>, \<open>audit.description\<close>,
  \<open>audit.score\<close>, \<open>audit.displayValue\<close>), its score a number or \<open>null\<close>; the
  \<open>AuditIssue\<close> the route pushes has the same four fields and the audit id in front.
\<close>

record Audit =
  title :: string
  description :: string
  score :: "rat option"
  displayValue :: "string option"

record AuditIssue = Audit +
  issue_id :: string

record DeviceResult =
  scores :: PageSpeedMetrics
  fieldData :: FieldData
  issues :: "AuditIssue list"

record ScanResult =
  url :: string
  status :: ScanStatus
  showIssues :: "bool option"
  mobile :: "DeviceResult option"
  desktop :: "DeviceResult option"
  error :: "string option"

section \<open>The PageSpeed route: extraction of the issues\<close>

definition relevantAuditIds :: "string list" where
  "relevantAuditIds =
    [''first-contentful-paint'',
     ''largest-contentful-paint'',
     ''cumulative-layout-shift'',
     ''total-blocking-time'',
     ''speed-index'',
     ''interactive'',
     ''server-response-time'',
     ''render-blocking-resources'',
     ''unminified-css'',
     ''unminified-javascript'',
     ''unused-css-rules'',
     ''unused-javascript'',
     ''uses-optimized-images'',
     ''uses-webp-images'',
     ''uses-responsive-images'',
     ''image-alt'',
     ''meta-description'',
     ''document-title'',
     ''crawlable-anchors'']"

text \<open>
  The test \<open>audit.score === null || audit.score < 0.9\<close>. Both sides of \<open><\<close> are doubles;
  no double lies strictly between the real number 9/10 and the double written \<open>0.9\<close>, so on
  the values a double can take the comparison agrees with the one against 9/10.
\<close>

definition failedAudit :: "'a Audit_scheme \<Rightarrow> bool" where
  "failedAudit audit = (case score audit of None \<Rightarrow> True | Some x \<Rightarrow> x < 9 / 10)"

definition mkIssue :: "string \<Rightarrow> Audit \<Rightarrow> AuditIssue" where
  "mkIssue auditId audit =
     \<lparr>title = title audit, description = description audit, score = score audit,
      displayValue = displayValue audit, issue_id = auditId\<rparr>"

text \<open>
  One round of \<open>for (const auditId of relevantAuditIds)\<close>: \<open>audits[auditId]\<close> is a lookup
  in the object \<open>audits\<close> (a map from audit id to audit; a missing key is falsy), and
  \<open>issues.push\<close> appends.
\<close>

definition issueStep :: "(string \<rightharpoonup> Audit) \<Rightarrow> AuditIssue list \<Rightarrow> string \<Rightarrow> AuditIssue list" where
  "issueStep audits acc auditId =
     (case audits auditId of
        None \<Rightarrow> acc
      | Some audit \<Rightarrow> if failedAudit audit then acc @ [mkIssue auditId audit] else acc)"

definition extractIssues :: "(string \<rightharpoonup> Audit) \<Rightarrow> AuditIssue list" where
  "extractIssues audits = foldl (issueStep audits) [] relevantAuditIds"

section \<open>The client page: parsing of the manual URL list\<close>

text \<open>
  A string is a list of characters, each standing for one code unit in the range
  U+0000 to U+00FF. \<open>String.prototype.trim\<close> strips white space and line terminators;
  in that range these are U+0009 to U+000D, U+0020 and U+00A0.
\<close>

definition isWhite :: "char \<Rightarrow> bool" where
  "isWhite c = ((of_char c :: nat) \<in> {9, 10, 11, 12, 13, 32, 160})"

definition trim :: "string \<Rightarrow> string" where
  "trim u = rev (dropWhile isWhite (rev (dropWhile isWhite u)))"

text \<open>The character class of the separator: a line feed or a comma.\<close>

definition isSep :: "char \<Rightarrow> bool" where
  "isSep c = (c = CHR 0x0A \<or> c = CHR '','')"

text \<open>
  \<open>value.split(/[\n,]+/)\<close>: the pieces between the maximal runs of separators. A leading
  or a trailing run leaves an empty piece at that end, and the empty string gives one
  empty piece.
\<close>

function split :: "string \<Rightarrow> string list" where
  "split v =
     (let piece = takeWhile (\<lambda>c. \<not> isSep c) v;
          rest = dropWhile (\<lambda>c. \<not> isSep c) v
      in if rest = [] then [piece] else piece # split (dropWhile isSep rest))"
  by pat_completeness auto
termination
proof (relation "measure length")
  show "wf (measure length)" by simp
next
  fix v :: string and piece rest :: string
  assume r: "rest = dropWhile (\<lambda>c. \<not> isSep c) v" and ne: "rest \<noteq> []"
  from ne obtain c cs where rc: "rest = c # cs" by (cases rest) auto
  have "isSep (hd (dropWhile (\<lambda>c. \<not> isSep c) v))"
    using hd_dropWhile [of "\<lambda>c. \<not> isSep c" v] ne r by simp
  with rc r have "isSep c" by simp
  then have "length (dropWhile isSep rest) \<le> length cs"
    using rc by (simp add: length_dropWhile_le)
  moreover have "length rest \<le> length v"
    using r by (simp add: length_dropWhile_le)
  ultimately show "(dropWhile isSep rest, v) \<in> measure length"
    using rc by simp
qed

text \<open>
  \<open>new Set(iterable)\<close> adds the values one by one; a value already in the set is not
  added again, and \<open>Array.from\<close> reads the set in insertion order.
\<close>

definition setAdd :: "'a list \<Rightarrow> 'a \<Rightarrow> 'a list" where
  "setAdd acc x = (if x \<in> set acc then acc else acc @ [x])"

definition arrayFromSet :: "'a list \<Rightarrow> 'a list" where
  "arrayFromSet xs = foldl setAdd [] xs"

text \<open>The URL strings of the input: \<open>.split(...).map((u) => u.trim()).filter(Boolean)\<close>.\<close>

definition inputUrls :: "string \<Rightarrow> string list" where
  "inputUrls v = filter (\<lambda>u. u \<noteq> []) (map trim (split v))"

definition parseManualUrls :: "string \<Rightarrow> string list" where
  "parseManualUrls v = arrayFromSet (inputUrls v)"

section \<open>The client page: state, backend and user\<close>

text \<open>
  The part of the component state that the scan functions read and write. The constant
  \<open>scanResults\<close> that a function of the component reads is the value of the render in
  which the function was created; \<open>setScanResults(prev => ...)\<close> acts on the current
  value. The functions below therefore take the list they look up as an argument
  (\<open>captured\<close>) where it can differ from the current one.
\<close>

record State =
  urls :: "UrlItem list"
  isScanning :: bool
  scanResults :: "ScanResult list"
  currentScanIndex :: "nat option"
  currentScanDevice :: "Strategy option"
  stopScanningRef :: bool

text \<open>
  What a run does that can be seen from outside: a request to \<open>/api/pagespeed\<close> for a
  URL and a strategy, and a timer of the given number of milliseconds that the run waits
  for.
\<close>

datatype Event = Call string Strategy | Pace nat

type_synonym Run = "State \<times> Event list"

text \<open>
  The environment of a run. Awaited operations are numbered by their position in the
  trace. \<open>respond p u strategy\<close> is the outcome of the request issued at position \<open>p\<close>:
  \<open>Inl message\<close> when \<open>scanUrl\<close> throws an error with that message, \<open>Inr result\<close> when it
  returns. \<open>interrupt p\<close> is what the other handlers of the page do to the state while
  the operation at position \<open>p\<close> is pending (nothing, a click on Stop, another function of
  the page run to its end).
\<close>

record World =
  respond :: "nat \<Rightarrow> string \<Rightarrow> Strategy \<Rightarrow> string + DeviceResult"
  interrupt :: "nat \<Rightarrow> Run \<Rightarrow> Run"

definition await :: "World \<Rightarrow> Event \<Rightarrow> Run \<Rightarrow> Run" where
  "await w e = (\<lambda>(s, tr). interrupt w (length tr) (s, tr @ [e]))"

definition scanUrl :: "World \<Rightarrow> string \<Rightarrow> Strategy \<Rightarrow> Run \<Rightarrow> (string + DeviceResult) \<times> Run" where
  "scanUrl w u strategy = (\<lambda>(s, tr). (respond w (length tr) u strategy, await w (Call u strategy) (s, tr)))"

text \<open>\<open>await new Promise(resolve => setTimeout(resolve, 3000))\<close>\<close>

definition pace :: "World \<Rightarrow> Run \<Rightarrow> Run" where
  "pace w = await w (Pace 3000)"

definition stopScan :: "State \<Rightarrow> State" where
  "stopScan s = s\<lparr>stopScanningRef := True, isScanning := False\<rparr>"

definition pressStop :: "Run \<Rightarrow> Run" where
  "pressStop = (\<lambda>(s, tr). (stopScan s, tr))"

section \<open>The client page: updates of the result list\<close>

text \<open>\<open>xs.findIndex(P)\<close>, with \<open>None\<close> for \<open>-1\<close>.\<close>

fun findIndex :: "('a \<Rightarrow> bool) \<Rightarrow> 'a list \<Rightarrow> nat option" where
  "findIndex P [] = None"
| "findIndex P (x # xs) = (if P x then Some 0 else map_option Suc (findIndex P xs))"

text \<open>\<open>prev.map((result, idx) => idx === k ? f(result) : result)\<close>\<close>

definition mapAt :: "nat \<Rightarrow> ('a \<Rightarrow> 'a) \<Rightarrow> 'a list \<Rightarrow> 'a list" where
  "mapAt k f prev = map (\<lambda>(idx, result). if idx = k then f result else result) (enumerate 0 prev)"

definition newResult :: "string \<Rightarrow> ScanResult" where
  "newResult u = \<lparr>url = u, status = Pending, showIssues = None, mobile = None,
                  desktop = None, error = None\<rparr>"

definition setScanning :: "nat \<Rightarrow> State \<Rightarrow> State" where
  "setScanning k s = s\<lparr>scanResults := mapAt k (\<lambda>result. result\<lparr>status := Scanning\<rparr>) (scanResults s)\<rparr>"

definition setCompleted :: "nat \<Rightarrow> DeviceResult \<Rightarrow> DeviceResult \<Rightarrow> State \<Rightarrow> State" where
  "setCompleted k mobileResult desktopResult s =
     s\<lparr>scanResults := mapAt k (\<lambda>result. result\<lparr>status := Completed, mobile := Some mobileResult,
                                   desktop := Some desktopResult, error := None\<rparr>) (scanResults s)\<rparr>"

definition setError :: "nat \<Rightarrow> string \<Rightarrow> State \<Rightarrow> State" where
  "setError k message s =
     s\<lparr>scanResults := mapAt k (\<lambda>result. result\<lparr>status := Error, error := Some message\<rparr>) (scanResults s)\<rparr>"

section \<open>The client page: the scan loop\<close>

datatype Flow = Break | Continue

text \<open>
  One round of the loop of \<open>startPerformanceScanWithUrls\<close>, for the item \<open>urlsToScan[i]\<close>;
  \<open>notLast\<close> is the test \<open>i < urlsToScan.length - 1\<close>. A \<open>break\<close> leaves the loop, the
  \<open>continue\<close> and the end of the body go on to the next item. An error thrown by
  \<open>scanUrl\<close> skips the rest of the \<open>try\<close> block and runs the \<open>catch\<close> block.
\<close>

definition scanItem :: "World \<Rightarrow> ScanResult list \<Rightarrow> UrlItem \<Rightarrow> bool \<Rightarrow> Run \<Rightarrow> Flow \<times> Run" where
  "scanItem w captured urlItem notLast = (\<lambda>(s, tr).
     if stopScanningRef s then (Break, (s, tr))
     else
       case findIndex (\<lambda>r. url r = UrlItem.url urlItem) captured of
         None \<Rightarrow> (Continue, (s, tr))
       | Some resultIndex \<Rightarrow>
          (let s1 = s\<lparr>currentScanIndex := Some resultIndex\<rparr>;
               s2 = setScanning resultIndex s1;
               s3 = s2\<lparr>currentScanDevice := Some Mobile\<rparr>;
               (mobileOutcome, (s4, tr4)) = scanUrl w (UrlItem.url urlItem) Mobile (s3, tr)
           in case mobileOutcome of
                Inl message \<Rightarrow> (Continue, (setError resultIndex message s4, tr4))
              | Inr mobileResult \<Rightarrow>
                 (let (s5, tr5) = pace w (s4, tr4)
                  in if stopScanningRef s5 then (Break, (s5, tr5))
                     else
                      (let s6 = s5\<lparr>currentScanDevice := Some Desktop\<rparr>;
                           (desktopOutcome, (s7, tr7)) = scanUrl w (UrlItem.url urlItem) Desktop (s6, tr5)
                       in case desktopOutcome of
                            Inl message \<Rightarrow> (Continue, (setError resultIndex message s7, tr7))
                          | Inr desktopResult \<Rightarrow>
                             (let s8 = setCompleted resultIndex mobileResult desktopResult s7
                              in (Continue, (if notLast then pace w (s8, tr7) else (s8, tr7))))))))"

text \<open>
  The loop, by recursion on the items still to scan: \<open>urlItem # rest\<close> is \<open>urlsToScan\<close>
  from index \<open>i\<close> on, and \<open>i < urlsToScan.length - 1\<close> says that \<open>rest\<close> is not empty.
\<close>

fun scanLoop :: "World \<Rightarrow> ScanResult list \<Rightarrow> UrlItem list \<Rightarrow> Run \<Rightarrow> Run" where
  "scanLoop w captured [] run = run"
| "scanLoop w captured (urlItem # rest) run =
     (case scanItem w captured urlItem (rest \<noteq> []) run of
        (Break, run') \<Rightarrow> run'
      | (Continue, run') \<Rightarrow> scanLoop w captured rest run')"

definition startPerformanceScanWithUrls :: "World \<Rightarrow> ScanResult list \<Rightarrow> UrlItem list \<Rightarrow> Run \<Rightarrow> Run" where
  "startPerformanceScanWithUrls w captured urlsToScan = (\<lambda>(s, tr).
     let s0 = s\<lparr>isScanning := True, stopScanningRef := False\<rparr>;
         (s1, tr1) = scanLoop w captured urlsToScan (s0, tr)
     in (s1\<lparr>isScanning := False, currentScanDevice := None\<rparr>, tr1))"

section \<open>The client page: the operations of the user\<close>

definition initialResults :: "UrlItem list \<Rightarrow> ScanResult list" where
  "initialResults items = map (\<lambda>item. newResult (UrlItem.url item)) items"

text \<open>
  \<open>startPerformanceScan\<close>. The list that \<open>startPerformanceScanWithUrls\<close> looks up is the
  one of the render in which the button was clicked, \<open>scanResults s\<close>, not the initial
  results set just before the call.
\<close>

definition startPerformanceScan :: "World \<Rightarrow> Run \<Rightarrow> Run" where
  "startPerformanceScan w = (\<lambda>(s, tr).
     let selectedUrls = filter selected (urls s)
     in if selectedUrls = [] then (s, tr)
        else startPerformanceScanWithUrls w (scanResults s) selectedUrls
               (s\<lparr>scanResults := initialResults selectedUrls\<rparr>, tr))"

text \<open>
  \<open>handleManualUrlsSubmit\<close>, with the text of the two inputs and the answer to
  \<open>window.confirm\<close> as arguments. The scan it starts is the one of the render of the
  submission too.
\<close>

definition manualUrlItems :: "string \<Rightarrow> UrlItem list" where
  "manualUrlItems manualUrlsInput =
     map (\<lambda>u. \<lparr>UrlItem.url = u, selected = True\<rparr>) (parseManualUrls manualUrlsInput)"

definition handleManualUrlsSubmit :: "World \<Rightarrow> string \<Rightarrow> string \<Rightarrow> bool \<Rightarrow> Run \<Rightarrow> Run" where
  "handleManualUrlsSubmit w apiKey manualUrlsInput confirmed = (\<lambda>(s, tr).
     if trim apiKey = [] then (s, tr)
     else if trim manualUrlsInput = [] then (s, tr)
     else if parseManualUrls manualUrlsInput = [] then (s, tr)
     else if scanResults s \<noteq> [] \<and> \<not> confirmed then (s, tr)
     else
       (let urlItems = manualUrlItems manualUrlsInput;
            s1 = s\<lparr>scanResults := [], currentScanIndex := None\<rparr>;
            s2 = s1\<lparr>urls := urlItems\<rparr>;
            s3 = s2\<lparr>scanResults := initialResults urlItems\<rparr>
        in startPerformanceScanWithUrls w (scanResults s) urlItems (s3, tr)))"

text \<open>
  \<open>rescanErrorUrls\<close>, clicked in the current render: the list it filters and the list
  the loop looks up are both \<open>scanResults s\<close>.
\<close>

definition rescanErrorUrls :: "World \<Rightarrow> bool \<Rightarrow> Run \<Rightarrow> Run" where
  "rescanErrorUrls w confirmed = (\<lambda>(s, tr).
     let errorResults = filter (\<lambda>r. status r = Error) (scanResults s)
     in if errorResults = [] then (s, tr)
        else if \<not> confirmed then (s, tr)
        else
          (let urlsToRescan = map (\<lambda>r. \<lparr>UrlItem.url = url r, selected = True\<rparr>) errorResults;
               s1 = s\<lparr>scanResults :=
                      map (\<lambda>result. if status result = Error
                                     then result\<lparr>status := Pending, error := None\<rparr> else result)
                          (scanResults s)\<rparr>
           in startPerformanceScanWithUrls w (scanResults s) urlsToRescan (s1, tr)))"

text \<open>
  \<open>rescanSingleUrl(index)\<close>; \<open>scanResults[index]\<close> is \<open>undefined\<close> when the index is out
  of range.
\<close>

definition rescanSingleUrl :: "World \<Rightarrow> nat \<Rightarrow> bool \<Rightarrow> Run \<Rightarrow> Run" where
  "rescanSingleUrl w index confirmed = (\<lambda>(s, tr).
     if \<not> index < length (scanResults s) then (s, tr)
     else if \<not> confirmed then (s, tr)
     else
       (let result = scanResults s ! index;
            s1 = s\<lparr>isScanning := True, stopScanningRef := False, currentScanIndex := Some index\<rparr>;
            s2 = s1\<lparr>scanResults := mapAt index (\<lambda>r. newResult (url r)) (scanResults s1)\<rparr>;
            s3 = setScanning index s2;
            s4 = s3\<lparr>currentScanDevice := Some Mobile\<rparr>;
            (mobileOutcome, (s5, tr5)) = scanUrl w (url result) Mobile (s4, tr)
        in case mobileOutcome of
             Inl message \<Rightarrow>
               ((setError index message s5)\<lparr>isScanning := False, currentScanDevice := None\<rparr>, tr5)
           | Inr mobileResult \<Rightarrow>
              (let (s6, tr6) = pace w (s5, tr5)
               in if stopScanningRef s6
                  then (s6\<lparr>isScanning := False, currentScanDevice := None\<rparr>, tr6)
                  else
                   (let s7 = s6\<lparr>currentScanDevice := Some Desktop\<rparr>;
                        (desktopOutcome, (s8, tr8)) = scanUrl w (url result) Desktop (s7, tr6)
                    in case desktopOutcome of
                         Inl message \<Rightarrow>
                           ((setError index message s8)\<lparr>isScanning := False, currentScanDevice := None\<rparr>, tr8)
                       | Inr desktopResult \<Rightarrow>
                           ((setCompleted index mobileResult desktopResult s8)
                              \<lparr>isScanning := False, currentScanDevice := None\<rparr>, tr8)))))"

section \<open>The client page: the Retry button\<close>

text \<open>
  The render shows the Retry button of the entry \<open>idx\<close> when
  \<open>result.status === 'error'\<close> and \<open>!isScanning\<close>; a click on it calls
  \<open>rescanSingleUrl(idx)\<close> (and the user confirms the dialog).
\<close>

definition retryButtonShown :: "State \<Rightarrow> nat \<Rightarrow> bool" where
  "retryButtonShown s idx = (idx < length (scanResults s) \<and> status (scanResults s ! idx) = Error \<and> \<not> isScanning s)"

definition clickRetry :: "World \<Rightarrow> nat \<Rightarrow> Run \<Rightarrow> Run" where
  "clickRetry w idx run = (if retryButtonShown (fst run) idx then rescanSingleUrl w idx True run else run)"

section \<open>Vocabulary of the properties\<close>

subsection \<open>What the user does while a run waits\<close>

text \<open>
  A world in which the only thing that happens while an operation is pending is a click
  on Stop (or nothing).
\<close>

definition stopsOnly :: "World \<Rightarrow> bool" where
  "stopsOnly w = (\<forall>p run. interrupt w p run = run \<or> interrupt w p run = pressStop run)"

text \<open>Nothing happens while the operation at position \<open>p\<close> is pending; Stop is clicked then.\<close>

definition quietAt :: "World \<Rightarrow> nat \<Rightarrow> bool" where
  "quietAt w p = (\<forall>run. interrupt w p run = run)"

definition stopAt :: "World \<Rightarrow> nat \<Rightarrow> bool" where
  "stopAt w p = (\<forall>run. interrupt w p run = pressStop run)"

text \<open>
  The operations of the page, each run to its end, in any order and nested in one
  another: an operation may be started while an awaited operation of another one is
  pending.
\<close>

inductive userAction :: "(Run \<Rightarrow> Run) \<Rightarrow> bool" where
  idle: "userAction (\<lambda>run. run)"
| stop: "userAction pressStop"
| start: "(\<And>p. userAction (interrupt w p)) \<Longrightarrow> userAction (startPerformanceScan w)"
| manual: "(\<And>p. userAction (interrupt w p)) \<Longrightarrow>
     userAction (handleManualUrlsSubmit w apiKey manualUrlsInput confirmed)"
| retryFailed: "(\<And>p. userAction (interrupt w p)) \<Longrightarrow> userAction (rescanErrorUrls w confirmed)"
| retryOne: "(\<And>p. userAction (interrupt w p)) \<Longrightarrow> userAction (rescanSingleUrl w index confirmed)"
| thenDo: "userAction f \<Longrightarrow> userAction g \<Longrightarrow> userAction (\<lambda>run. g (f run))"

text \<open>The state of the page once a list of URLs is loaded, and the states reached from it.\<close>

definition initialState :: "UrlItem list \<Rightarrow> State" where
  "initialState us = \<lparr>urls = us, isScanning = False, scanResults = [], currentScanIndex = None,
      currentScanDevice = None, stopScanningRef = False\<rparr>"

inductive reachable :: "State \<Rightarrow> bool" where
  initial: "reachable (initialState us)"
| step: "reachable s \<Longrightarrow> userAction f \<Longrightarrow> reachable (fst (f (s, tr)))"

subsection \<open>Properties of the result list and of the trace\<close>

definition onResults :: "(ScanResult list \<Rightarrow> Event list \<Rightarrow> bool) \<Rightarrow> Run \<Rightarrow> bool" where
  "onResults Q run = Q (scanResults (fst run)) (snd run)"

definition completedOk :: "ScanResult \<Rightarrow> bool" where
  "completedOk r = (status r = Completed \<longrightarrow> mobile r \<noteq> None \<and> desktop r \<noteq> None \<and> error r = None)"

definition allOk :: "ScanResult list \<Rightarrow> bool" where
  "allOk rs = list_all completedOk rs"

text \<open>The entries at the indices to keep are those of \<open>rs0\<close>.\<close>

definition untouched :: "(nat \<Rightarrow> bool) \<Rightarrow> ScanResult list \<Rightarrow> ScanResult list \<Rightarrow> bool" where
  "untouched keep rs0 rs = (length rs = length rs0 \<and> (\<forall>j<length rs0. keep j \<longrightarrow> rs ! j = rs0 ! j))"

text \<open>The trace has grown from \<open>tr0\<close>, and every request added is for a URL in \<open>U\<close>.\<close>

definition callsWithin :: "string set \<Rightarrow> Event list \<Rightarrow> Event list \<Rightarrow> bool" where
  "callsWithin U tr0 tr = (\<exists>evs. tr = tr0 @ evs \<and> (\<forall>u d. Call u d \<in> set evs \<longrightarrow> u \<in> U))"

text \<open>The trace has grown from \<open>tr0\<close>, and every wait added is one of 3000 ms.\<close>

definition wholeWaits :: "Event list \<Rightarrow> Event list \<Rightarrow> bool" where
  "wholeWaits tr0 tr = (\<exists>evs. tr = tr0 @ evs \<and> (\<forall>n. Pace n \<in> set evs \<longrightarrow> n = 3000))"

text \<open>
  The events of one item when each of its two requests is followed by a wait: the mobile
  request, the wait, the desktop request, the wait.
\<close>

definition itemEvents :: "UrlItem \<Rightarrow> Event list" where
  "itemEvents item = [Call (UrlItem.url item) Mobile, Pace 3000, Call (UrlItem.url item) Desktop, Pace 3000]"

text \<open>The position of the first occurrence of \<open>x\<close> in \<open>xs\<close>.\<close>

definition firstIndexOf :: "'a \<Rightarrow> 'a list \<Rightarrow> nat" where
  "firstIndexOf x xs = length (takeWhile (\<lambda>y. y \<noteq> x) xs)"

subsection \<open>Concrete inputs\<close>

definition okResult :: DeviceResult where
  "okResult = \<lparr>scores = \<lparr>performance = 95, accessibility = 100, bestPractices = 92, seo = 100\<rparr>,
     fieldData = \<lparr>fcp = None, fid = None, lcp = None, cls = None\<rparr>, issues = []\<rparr>"

text \<open>Every request succeeds and the user does nothing.\<close>

definition quiet :: World where
  "quiet = \<lparr>respond = (\<lambda>p u strategy. Inr okResult), interrupt = (\<lambda>p run. run)\<rparr>"

text \<open>A result list of pending items for the given URLs, and the queue of these URLs.\<close>

definition pendingState :: "string list \<Rightarrow> State" where
  "pendingState us = \<lparr>urls = [], isScanning = False, scanResults = map newResult us,
      currentScanIndex = None, currentScanDevice = None, stopScanningRef = False\<rparr>"

definition queueOf :: "string list \<Rightarrow> UrlItem list" where
  "queueOf us = map (\<lambda>u. \<lparr>UrlItem.url = u, selected = True\<rparr>) us"

text \<open>Every request succeeds, and the user clicks Stop while operation \<open>n\<close> is pending.\<close>

definition stopDuring :: "nat \<Rightarrow> World" where
  "stopDuring n = \<lparr>respond = (\<lambda>p u strategy. Inr okResult),
                   interrupt = (\<lambda>p run. if p = n then pressStop run else run)\<rparr>"

text \<open>The request at position \<open>n\<close> fails, all others succeed; the user does nothing.\<close>

definition failingAt :: "nat \<Rightarrow> World" where
  "failingAt n = \<lparr>respond = (\<lambda>p u strategy. if p = n then Inl ''Failed to scan URL'' else Inr okResult),
                  interrupt = (\<lambda>p run. run)\<rparr>"

text \<open>The same one-line list submitted twice, the second time confirmed.\<close>

definition submittedTwice :: State where
  "submittedTwice =
     fst (handleManualUrlsSubmit quiet ''key'' ''https://a.test/'' True
       (fst (handleManualUrlsSubmit quiet ''key'' ''https://a.test/'' False (initialState [], [])), []))"

definition completedResult :: "string \<Rightarrow> ScanResult" where
  "completedResult u = \<lparr>url = u, status = Completed, showIssues = None, mobile = Some okResult,
      desktop = Some okResult, error = None\<rparr>"

definition failedResult :: "string \<Rightarrow> ScanResult" where
  "failedResult u = \<lparr>url = u, status = Error, showIssues = None, mobile = None,
      desktop = None, error = Some ''Failed to scan URL''\<rparr>"

definition stateABC :: State where
  "stateABC = \<lparr>urls = [], isScanning = False,
      scanResults = [completedResult ''A'', failedResult ''B'', completedResult ''C''],
      currentScanIndex = None, currentScanDevice = None, stopScanningRef = False\<rparr>"

text \<open>Two entries that failed in an earlier run.\<close>

definition stateBothFailed :: State where
  "stateBothFailed = \<lparr>urls = [], isScanning = False,
      scanResults = [failedResult ''a'', failedResult ''b''],
      currentScanIndex = None, currentScanDevice = None, stopScanningRef = False\<rparr>"

text \<open>
  The first request fails, all others succeed. While the operation at position 1 is
  pending the user clicks Stop and then the Retry button of the first entry, and that
  retry runs to its end before the pending operation returns.
\<close>

definition overlapping :: World where
  "overlapping = \<lparr>respond = (\<lambda>p u strategy. if p = 0 then Inl ''Failed to scan URL'' else Inr okResult),
                  interrupt = (\<lambda>p run. if p = 1 then clickRetry quiet 0 (pressStop run) else run)\<rparr>"

text \<open>
  Audits of a Lighthouse result: two relevant audits that fail (one with a \<open>null\<close>
  score), a relevant one that passes, and a failing one that is not in the list.
\<close>

definition sampleAudits :: "string \<rightharpoonup> Audit" where
  "sampleAudits =
     [''image-alt'' \<mapsto> \<lparr>title = ''Image elements have alt attributes'', description = '''',
                         score = None, displayValue = None\<rparr>,
      ''interactive'' \<mapsto> \<lparr>title = ''Time to Interactive'', description = '''',
                           score = Some (95 / 100), displayValue = Some ''1.2 s''\<rparr>,
      ''speed-index'' \<mapsto> \<lparr>title = ''Speed Index'', description = '''',
                           score = Some (1 / 2), displayValue = Some ''4.0 s''\<rparr>,
      ''viewport'' \<mapsto> \<lparr>title = ''Has a viewport meta tag'', description = '''',
                        score = Some 0, displayValue = None\<rparr>]"

text \<open>The list a, b submitted on a fresh page.\<close>

definition submittedAB :: State where
  "submittedAB = fst (handleManualUrlsSubmit quiet ''key'' ''a,b'' False (initialState [], []))"

text \<open>The list a, b, c submitted on a fresh page.\<close>

definition submittedABC :: State where
  "submittedABC = fst (handleManualUrlsSubmit quiet ''key'' ''a,b,c'' False (initialState [], []))"

text \<open>The URL items of a sitemap that lists one URL twice, both selected.\<close>

definition duplicateUrls :: "UrlItem list" where
  "duplicateUrls = [\<lparr>UrlItem.url = ''https://a.test/'', selected = True\<rparr>,
                    \<lparr>UrlItem.url = ''https://a.test/'', selected = True\<rparr>]"

section \<open>Basic facts about the model\<close>

subsection \<open>Index lookup and update by index\<close>

lemma length_mapAt [simp]: "length (mapAt k f xs) = length xs"
  by (simp add: mapAt_def)

lemma nth_mapAt: "j < length xs \<Longrightarrow> mapAt k f xs ! j = (if j = k then f (xs ! j) else xs ! j)"
  by (simp add: mapAt_def nth_enumerate_eq)

lemma mapAt_update: "mapAt k f xs = (if k < length xs then xs[k := f (xs ! k)] else xs)"
  by (rule nth_equalityI) (auto simp: nth_mapAt nth_list_update)

lemma set_mapAt_subset: "set (mapAt k f xs) \<subseteq> set xs \<union> f ` set xs"
proof (cases "k < length xs")
  case True
  then have "set (mapAt k f xs) \<subseteq> insert (f (xs ! k)) (set xs)"
    by (simp add: mapAt_update set_update_subset_insert)
  with True show ?thesis by auto
next
  case False
  then show ?thesis by (simp add: mapAt_update)
qed

lemma findIndex_SomeD:
  "findIndex P xs = Some k \<Longrightarrow> k < length xs \<and> P (xs ! k) \<and> (\<forall>j<k. \<not> P (xs ! j))"
proof (induction xs arbitrary: k)
  case Nil
  then show ?case by simp
next
  case (Cons x xs)
  show ?case
  proof (cases "P x")
    case True
    with Cons.prems show ?thesis by simp
  next
    case False
    with Cons.prems obtain k' where k': "findIndex P xs = Some k'" "k = Suc k'"
      by auto
    from Cons.IH [OF k'(1)] False k'(2) show ?thesis
      by (auto simp: nth_Cons split: nat.splits)
  qed
qed

lemma findIndex_None_iff: "findIndex P xs = None \<longleftrightarrow> (\<forall>x\<in>set xs. \<not> P x)"
  by (induction xs) auto

subsection \<open>What every step of a run preserves\<close>

lemma scanUrl_preserves:
  assumes "Q (s, tr)"
    and "\<And>p run. Q run \<Longrightarrow> Q (interrupt w p run)"
    and "\<And>s tr. Q (s, tr) \<Longrightarrow> Q (s, tr @ [Call u d])"
  shows "Q (snd (scanUrl w u d (s, tr)))"
  using assms by (simp add: scanUrl_def await_def)

lemma pace_preserves:
  assumes "Q (s, tr)"
    and "\<And>p run. Q run \<Longrightarrow> Q (interrupt w p run)"
    and "\<And>s tr. Q (s, tr) \<Longrightarrow> Q (s, tr @ [Pace 3000])"
  shows "Q (pace w (s, tr))"
  using assms by (simp add: pace_def await_def)

lemma scanItem_preserves:
  assumes Q: "Q (s, tr)"
    and int: "\<And>p run. Q run \<Longrightarrow> Q (interrupt w p run)"
    and call: "\<And>s tr d. Q (s, tr) \<Longrightarrow> Q (s, tr @ [Call (UrlItem.url item) d])"
    and wait: "\<And>s tr. Q (s, tr) \<Longrightarrow> Q (s, tr @ [Pace 3000])"
    and idx: "\<And>s tr x. Q (s, tr) \<Longrightarrow> Q (s\<lparr>currentScanIndex := x\<rparr>, tr)"
    and dev: "\<And>s tr x. Q (s, tr) \<Longrightarrow> Q (s\<lparr>currentScanDevice := x\<rparr>, tr)"
    and scanning: "\<And>s tr k. findIndex (\<lambda>r. url r = UrlItem.url item) cap = Some k \<Longrightarrow> Q (s, tr) \<Longrightarrow> Q (setScanning k s, tr)"
    and failed: "\<And>s tr k m. findIndex (\<lambda>r. url r = UrlItem.url item) cap = Some k \<Longrightarrow> Q (s, tr) \<Longrightarrow> Q (setError k m s, tr)"
    and fin: "\<And>s tr k a b. findIndex (\<lambda>r. url r = UrlItem.url item) cap = Some k \<Longrightarrow> Q (s, tr) \<Longrightarrow> Q (setCompleted k a b s, tr)"
  shows "Q (snd (scanItem w cap item nl (s, tr)))"
proof (cases "stopScanningRef s")
  case True
  with Q show ?thesis by (simp add: scanItem_def)
next
  case running: False
  show ?thesis
  proof (cases "findIndex (\<lambda>r. url r = UrlItem.url item) cap")
    case None
    with Q running show ?thesis by (simp add: scanItem_def)
  next
    case (Some k)
    define s3 where "s3 = (setScanning k (s\<lparr>currentScanIndex := Some k\<rparr>))\<lparr>currentScanDevice := Some Mobile\<rparr>"
    have Q3: "Q (s3, tr)" unfolding s3_def by (intro dev scanning [OF Some] idx Q)
    obtain m4 s4 tr4 where e4: "scanUrl w (UrlItem.url item) Mobile (s3, tr) = (m4, (s4, tr4))"
      by (metis prod.exhaust)
    have Q4: "Q (s4, tr4)"
      using scanUrl_preserves [of Q s3 tr w "UrlItem.url item" Mobile, OF Q3 int call] e4 by simp
    show ?thesis
    proof (cases m4)
      case (Inl m)
      with running Some e4 failed [OF Some Q4] show ?thesis
        by (simp add: scanItem_def s3_def)
    next
      case (Inr mres)
      obtain s5 tr5 where e5: "pace w (s4, tr4) = (s5, tr5)" by (metis prod.exhaust)
      have Q5: "Q (s5, tr5)" using pace_preserves [of Q s4 tr4 w, OF Q4 int wait] e5 by simp
      show ?thesis
      proof (cases "stopScanningRef s5")
        case True
        with running Some e4 Inr e5 Q5 show ?thesis
          by (simp add: scanItem_def s3_def)
      next
        case go: False
        have Q6: "Q (s5\<lparr>currentScanDevice := Some Desktop\<rparr>, tr5)" by (intro dev Q5)
        obtain m7 s7 tr7 where e7: "scanUrl w (UrlItem.url item) Desktop (s5\<lparr>currentScanDevice := Some Desktop\<rparr>, tr5) = (m7, (s7, tr7))"
          by (metis prod.exhaust)
        have Q7: "Q (s7, tr7)"
          using scanUrl_preserves [of Q _ tr5 w "UrlItem.url item" Desktop, OF Q6 int call] e7 by simp
        show ?thesis
        proof (cases m7)
          case (Inl m)
          with running Some e4 Inr e5 go e7 failed [OF Some Q7] show ?thesis
            by (simp add: scanItem_def s3_def)
        next
          case dres: (Inr dres)
          have Q8: "Q (setCompleted k mres dres s7, tr7)" by (intro fin [OF Some] Q7)
          have Q9: "Q (pace w (setCompleted k mres dres s7, tr7))"
            by (rule pace_preserves [OF Q8 int wait])
          from running Some e4 Inr e5 go e7 dres Q8 Q9 show ?thesis
            by (simp add: scanItem_def s3_def Let_def)
        qed
      qed
    qed
  qed
qed

lemma scanLoop_preserves:
  assumes Q: "Q run"
    and int: "\<And>p run. Q run \<Longrightarrow> Q (interrupt w p run)"
    and call: "\<And>s tr d item. item \<in> set queue \<Longrightarrow> Q (s, tr) \<Longrightarrow> Q (s, tr @ [Call (UrlItem.url item) d])"
    and wait: "\<And>s tr. Q (s, tr) \<Longrightarrow> Q (s, tr @ [Pace 3000])"
    and idx: "\<And>s tr x. Q (s, tr) \<Longrightarrow> Q (s\<lparr>currentScanIndex := x\<rparr>, tr)"
    and dev: "\<And>s tr x. Q (s, tr) \<Longrightarrow> Q (s\<lparr>currentScanDevice := x\<rparr>, tr)"
    and scanning: "\<And>s tr k item. item \<in> set queue \<Longrightarrow> findIndex (\<lambda>r. url r = UrlItem.url item) cap = Some k \<Longrightarrow> Q (s, tr) \<Longrightarrow> Q (setScanning k s, tr)"
    and failed: "\<And>s tr k m item. item \<in> set queue \<Longrightarrow> findIndex (\<lambda>r. url r = UrlItem.url item) cap = Some k \<Longrightarrow> Q (s, tr) \<Longrightarrow> Q (setError k m s, tr)"
    and fin: "\<And>s tr k a b item. item \<in> set queue \<Longrightarrow> findIndex (\<lambda>r. url r = UrlItem.url item) cap = Some k \<Longrightarrow> Q (s, tr) \<Longrightarrow> Q (setCompleted k a b s, tr)"
  shows "Q (scanLoop w cap queue run)"
  using assms
proof (induction queue arbitrary: run)
  case Nil
  then show ?case by simp
next
  case (Cons item rest)
  obtain s tr where run: "run = (s, tr)" by (cases run)
  obtain fl run' where e: "scanItem w cap item (rest \<noteq> []) (s, tr) = (fl, run')"
    by (metis prod.exhaust)
  have "Q (snd (scanItem w cap item (rest \<noteq> []) (s, tr)))"
  proof (rule scanItem_preserves)
    show "Q (s, tr)" using Cons.prems(1) run by simp
    show "\<And>p run. Q run \<Longrightarrow> Q (interrupt w p run)" by (rule Cons.prems(2))
    show "\<And>s tr d. Q (s, tr) \<Longrightarrow> Q (s, tr @ [Call (UrlItem.url item) d])"
      by (rule Cons.prems(3)) simp_all
    show "\<And>s tr. Q (s, tr) \<Longrightarrow> Q (s, tr @ [Pace 3000])" by (rule Cons.prems(4))
    show "\<And>s tr x. Q (s, tr) \<Longrightarrow> Q (s\<lparr>currentScanIndex := x\<rparr>, tr)" by (rule Cons.prems(5))
    show "\<And>s tr x. Q (s, tr) \<Longrightarrow> Q (s\<lparr>currentScanDevice := x\<rparr>, tr)" by (rule Cons.prems(6))
    show "\<And>s tr k. findIndex (\<lambda>r. url r = UrlItem.url item) cap = Some k \<Longrightarrow> Q (s, tr) \<Longrightarrow> Q (setScanning k s, tr)"
      by (rule Cons.prems(7) [of item]) simp_all
    show "\<And>s tr k m. findIndex (\<lambda>r. url r = UrlItem.url item) cap = Some k \<Longrightarrow> Q (s, tr) \<Longrightarrow> Q (setError k m s, tr)"
      by (rule Cons.prems(8) [of item]) simp_all
    show "\<And>s tr k a b. findIndex (\<lambda>r. url r = UrlItem.url item) cap = Some k \<Longrightarrow> Q (s, tr) \<Longrightarrow> Q (setCompleted k a b s, tr)"
      by (rule Cons.prems(9) [of item]) simp_all
  qed
  with e have Q': "Q run'" by simp
  show ?case
  proof (cases fl)
    case Break
    with e run Q' show ?thesis by simp
  next
    case Continue
    have "Q (scanLoop w cap rest run')"
    proof (rule Cons.IH [OF Q'])
      show "\<And>p run. Q run \<Longrightarrow> Q (interrupt w p run)" by (rule Cons.prems(2))
      show "\<And>s tr d item. item \<in> set rest \<Longrightarrow> Q (s, tr) \<Longrightarrow> Q (s, tr @ [Call (UrlItem.url item) d])"
        by (rule Cons.prems(3)) simp_all
      show "\<And>s tr. Q (s, tr) \<Longrightarrow> Q (s, tr @ [Pace 3000])" by (rule Cons.prems(4))
      show "\<And>s tr x. Q (s, tr) \<Longrightarrow> Q (s\<lparr>currentScanIndex := x\<rparr>, tr)" by (rule Cons.prems(5))
      show "\<And>s tr x. Q (s, tr) \<Longrightarrow> Q (s\<lparr>currentScanDevice := x\<rparr>, tr)" by (rule Cons.prems(6))
      show "\<And>s tr k item. item \<in> set rest \<Longrightarrow> findIndex (\<lambda>r. url r = UrlItem.url item) cap = Some k \<Longrightarrow> Q (s, tr) \<Longrightarrow> Q (setScanning k s, tr)"
        by (rule Cons.prems(7)) simp_all
      show "\<And>s tr k m item. item \<in> set rest \<Longrightarrow> findIndex (\<lambda>r. url r = UrlItem.url item) cap = Some k \<Longrightarrow> Q (s, tr) \<Longrightarrow> Q (setError k m s, tr)"
        by (rule Cons.prems(8)) simp_all
      show "\<And>s tr k a b item. item \<in> set rest \<Longrightarrow> findIndex (\<lambda>r. url r = UrlItem.url item) cap = Some k \<Longrightarrow> Q (s, tr) \<Longrightarrow> Q (setCompleted k a b s, tr)"
        by (rule Cons.prems(9)) simp_all
    qed
    with e run Continue show ?thesis by simp
  qed
qed

lemma scanResults_simps [simp]:
  "scanResults (setScanning k s) = mapAt k (\<lambda>result. result\<lparr>status := Scanning\<rparr>) (scanResults s)"
  "scanResults (setError k m s) = mapAt k (\<lambda>result. result\<lparr>status := Error, error := Some m\<rparr>) (scanResults s)"
  "scanResults (setCompleted k a b s) = mapAt k (\<lambda>result. result\<lparr>status := Completed, mobile := Some a,
                                   desktop := Some b, error := None\<rparr>) (scanResults s)"
  "scanResults (stopScan s) = scanResults s"
  by (simp_all add: setScanning_def setError_def setCompleted_def stopScan_def)

subsection \<open>Properties of the result list and of the trace along a run\<close>

lemma onResults_simps [simp]: "onResults Q (s, tr) = Q (scanResults s) tr"
  by (simp add: onResults_def)

lemma scanLoop_results:
  assumes Q: "onResults Q run"
    and int: "\<And>p run. onResults Q run \<Longrightarrow> onResults Q (interrupt w p run)"
    and call: "\<And>rs tr d item. item \<in> set queue \<Longrightarrow> Q rs tr \<Longrightarrow> Q rs (tr @ [Call (UrlItem.url item) d])"
    and wait: "\<And>rs tr. Q rs tr \<Longrightarrow> Q rs (tr @ [Pace 3000])"
    and scanning: "\<And>rs tr k item. item \<in> set queue \<Longrightarrow> findIndex (\<lambda>r. url r = UrlItem.url item) cap = Some k
        \<Longrightarrow> Q rs tr \<Longrightarrow> Q (mapAt k (\<lambda>result. result\<lparr>status := Scanning\<rparr>) rs) tr"
    and failed: "\<And>rs tr k m item. item \<in> set queue \<Longrightarrow> findIndex (\<lambda>r. url r = UrlItem.url item) cap = Some k
        \<Longrightarrow> Q rs tr \<Longrightarrow> Q (mapAt k (\<lambda>result. result\<lparr>status := Error, error := Some m\<rparr>) rs) tr"
    and fin: "\<And>rs tr k a b item. item \<in> set queue \<Longrightarrow> findIndex (\<lambda>r. url r = UrlItem.url item) cap = Some k
        \<Longrightarrow> Q rs tr \<Longrightarrow> Q (mapAt k (\<lambda>result. result\<lparr>status := Completed, mobile := Some a,
                                   desktop := Some b, error := None\<rparr>) rs) tr"
  shows "onResults Q (scanLoop w cap queue run)"
proof (rule scanLoop_preserves [where Q = "onResults Q"])
  show "onResults Q run" by (rule Q)
  show "\<And>p run. onResults Q run \<Longrightarrow> onResults Q (interrupt w p run)" by (rule int)
  show "\<And>s tr d item. item \<in> set queue \<Longrightarrow> onResults Q (s, tr) \<Longrightarrow> onResults Q (s, tr @ [Call (UrlItem.url item) d])"
    using call by simp
  show "\<And>s tr. onResults Q (s, tr) \<Longrightarrow> onResults Q (s, tr @ [Pace 3000])"
    using wait by simp
  show "\<And>s tr x. onResults Q (s, tr) \<Longrightarrow> onResults Q (s\<lparr>currentScanIndex := x\<rparr>, tr)" by simp
  show "\<And>s tr x. onResults Q (s, tr) \<Longrightarrow> onResults Q (s\<lparr>currentScanDevice := x\<rparr>, tr)" by simp
  show "\<And>s tr k item. item \<in> set queue \<Longrightarrow> findIndex (\<lambda>r. url r = UrlItem.url item) cap = Some k \<Longrightarrow>
      onResults Q (s, tr) \<Longrightarrow> onResults Q (setScanning k s, tr)"
    using scanning by simp
  show "\<And>s tr k m item. item \<in> set queue \<Longrightarrow> findIndex (\<lambda>r. url r = UrlItem.url item) cap = Some k \<Longrightarrow>
      onResults Q (s, tr) \<Longrightarrow> onResults Q (setError k m s, tr)"
    using failed by simp
  show "\<And>s tr k a b item. item \<in> set queue \<Longrightarrow> findIndex (\<lambda>r. url r = UrlItem.url item) cap = Some k \<Longrightarrow>
      onResults Q (s, tr) \<Longrightarrow> onResults Q (setCompleted k a b s, tr)"
    using fin by simp
qed

lemma startPerformanceScanWithUrls_results:
  assumes Q: "Q (scanResults s) tr"
    and int: "\<And>p run. onResults Q run \<Longrightarrow> onResults Q (interrupt w p run)"
    and call: "\<And>rs tr d item. item \<in> set queue \<Longrightarrow> Q rs tr \<Longrightarrow> Q rs (tr @ [Call (UrlItem.url item) d])"
    and wait: "\<And>rs tr. Q rs tr \<Longrightarrow> Q rs (tr @ [Pace 3000])"
    and scanning: "\<And>rs tr k item. item \<in> set queue \<Longrightarrow> findIndex (\<lambda>r. url r = UrlItem.url item) cap = Some k
        \<Longrightarrow> Q rs tr \<Longrightarrow> Q (mapAt k (\<lambda>result. result\<lparr>status := Scanning\<rparr>) rs) tr"
    and failed: "\<And>rs tr k m item. item \<in> set queue \<Longrightarrow> findIndex (\<lambda>r. url r = UrlItem.url item) cap = Some k
        \<Longrightarrow> Q rs tr \<Longrightarrow> Q (mapAt k (\<lambda>result. result\<lparr>status := Error, error := Some m\<rparr>) rs) tr"
    and fin: "\<And>rs tr k a b item. item \<in> set queue \<Longrightarrow> findIndex (\<lambda>r. url r = UrlItem.url item) cap = Some k
        \<Longrightarrow> Q rs tr \<Longrightarrow> Q (mapAt k (\<lambda>result. result\<lparr>status := Completed, mobile := Some a,
                                   desktop := Some b, error := None\<rparr>) rs) tr"
  shows "onResults Q (startPerformanceScanWithUrls w cap queue (s, tr))"
proof -
  have "onResults Q (scanLoop w cap queue (s\<lparr>isScanning := True, stopScanningRef := False\<rparr>, tr))"
    by (rule scanLoop_results [OF _ int call wait scanning failed fin]) (simp_all add: Q)
  then show ?thesis
    by (cases "scanLoop w cap queue (s\<lparr>isScanning := True, stopScanningRef := False\<rparr>, tr)")
       (simp add: startPerformanceScanWithUrls_def)
qed

lemma rescanSingleUrl_results:
  assumes Q: "Q (scanResults s) tr"
    and int: "\<And>p run. onResults Q run \<Longrightarrow> onResults Q (interrupt w p run)"
    and call: "\<And>rs tr d. Q rs tr \<Longrightarrow> Q rs (tr @ [Call (url (scanResults s ! index)) d])"
    and wait: "\<And>rs tr. Q rs tr \<Longrightarrow> Q rs (tr @ [Pace 3000])"
    and reset: "\<And>rs tr. Q rs tr \<Longrightarrow> Q (mapAt index (\<lambda>r. newResult (url r)) rs) tr"
    and scanning: "\<And>rs tr. Q rs tr \<Longrightarrow> Q (mapAt index (\<lambda>result. result\<lparr>status := Scanning\<rparr>) rs) tr"
    and failed: "\<And>rs tr m. Q rs tr \<Longrightarrow> Q (mapAt index (\<lambda>result. result\<lparr>status := Error, error := Some m\<rparr>) rs) tr"
    and fin: "\<And>rs tr a b. Q rs tr \<Longrightarrow> Q (mapAt index (\<lambda>result. result\<lparr>status := Completed, mobile := Some a,
                                   desktop := Some b, error := None\<rparr>) rs) tr"
  shows "onResults Q (rescanSingleUrl w index confirmed (s, tr))"
proof (cases "index < length (scanResults s) \<and> confirmed")
  case False
  with Q show ?thesis by (auto simp: rescanSingleUrl_def)
next
  case True
  define u where "u = url (scanResults s ! index)"
  define s4 where "s4 = (setScanning index
      (s\<lparr>isScanning := True, stopScanningRef := False, currentScanIndex := Some index,
         scanResults := mapAt index (\<lambda>r. newResult (url r)) (scanResults s)\<rparr>))\<lparr>currentScanDevice := Some Mobile\<rparr>"
  have step: "\<And>s tr d. onResults Q (s, tr) \<Longrightarrow> onResults Q (snd (scanUrl w u d (s, tr)))"
    by (rule scanUrl_preserves [where Q = "onResults Q"]) (use int call u_def in \<open>simp_all\<close>)
  have pstep: "\<And>s tr. onResults Q (s, tr) \<Longrightarrow> onResults Q (pace w (s, tr))"
    by (rule pace_preserves [where Q = "onResults Q"]) (use int wait in \<open>simp_all\<close>)
  have Q4: "onResults Q (s4, tr)"
    unfolding s4_def using scanning [OF reset [OF Q]] by simp
  obtain m5 s5 tr5 where e5: "scanUrl w u Mobile (s4, tr) = (m5, (s5, tr5))" by (metis prod.exhaust)
  have Q5: "onResults Q (s5, tr5)" using step [OF Q4, of Mobile] e5 by simp
  show ?thesis
  proof (cases m5)
    case (Inl m)
    have "Q (mapAt index (\<lambda>result. result\<lparr>status := Error, error := Some m\<rparr>) (scanResults s5)) tr5"
      using Q5 by (intro failed) simp
    with True e5 Inl show ?thesis
      by (simp add: rescanSingleUrl_def s4_def u_def)
  next
    case (Inr mres)
    obtain s6 tr6 where e6: "pace w (s5, tr5) = (s6, tr6)" by (metis prod.exhaust)
    have Q6: "onResults Q (s6, tr6)" using pstep [OF Q5] e6 by simp
    show ?thesis
    proof (cases "stopScanningRef s6")
      case stopped: True
      with True e5 Inr e6 Q6 show ?thesis
        by (simp add: rescanSingleUrl_def s4_def u_def)
    next
      case go: False
      obtain m8 s8 tr8 where e8: "scanUrl w u Desktop (s6\<lparr>currentScanDevice := Some Desktop\<rparr>, tr6) = (m8, (s8, tr8))"
        by (metis prod.exhaust)
      have "onResults Q (s6\<lparr>currentScanDevice := Some Desktop\<rparr>, tr6)" using Q6 by simp
      from step [OF this, of Desktop] e8 have Q8: "onResults Q (s8, tr8)" by simp
      show ?thesis
      proof (cases m8)
        case (Inl m)
        have "Q (mapAt index (\<lambda>result. result\<lparr>status := Error, error := Some m\<rparr>) (scanResults s8)) tr8"
          using Q8 by (intro failed) simp
        with True e5 Inr e6 go e8 Inl show ?thesis
          by (simp add: rescanSingleUrl_def s4_def u_def)
      next
        case dres: (Inr dres)
        have "Q (mapAt index (\<lambda>result. result\<lparr>status := Completed, mobile := Some mres,
                                   desktop := Some dres, error := None\<rparr>) (scanResults s8)) tr8"
          using Q8 by (intro fin) simp
        with True e5 Inr e6 go e8 dres show ?thesis
          by (simp add: rescanSingleUrl_def s4_def u_def)
      qed
    qed
  qed
qed

subsection \<open>The cancellation flag and the awaited operations\<close>

lemma flag_simps [simp]:
  "stopScanningRef (setScanning k s) = stopScanningRef s"
  "stopScanningRef (setError k m s) = stopScanningRef s"
  "stopScanningRef (setCompleted k a b s) = stopScanningRef s"
  "stopScanningRef (stopScan s) = True"
  by (simp_all add: setScanning_def setError_def setCompleted_def stopScan_def)

lemma await_quietAt: "quietAt w (length tr) \<Longrightarrow> await w e (s, tr) = (s, tr @ [e])"
  by (simp add: await_def quietAt_def)

lemma await_stopAt: "stopAt w (length tr) \<Longrightarrow> await w e (s, tr) = (stopScan s, tr @ [e])"
  by (simp add: await_def stopAt_def pressStop_def)

lemma await_stopsOnly:
  "stopsOnly w \<Longrightarrow> await w e (s, tr) = (s, tr @ [e]) \<or> await w e (s, tr) = (stopScan s, tr @ [e])"
  unfolding stopsOnly_def await_def pressStop_def
  by (metis (mono_tags, lifting) case_prod_conv)

lemma scanLoop_stopped: "stopScanningRef s \<Longrightarrow> scanLoop w cap queue (s, tr) = (s, tr)"
  by (cases queue) (simp_all add: scanItem_def)

lemma pace_stopsOnly:
  assumes "stopsOnly w"
  shows "pace w (s, tr) = (s, tr @ [Pace 3000]) \<or> pace w (s, tr) = (stopScan s, tr @ [Pace 3000])"
  using assms unfolding stopsOnly_def pace_def await_def pressStop_def
  by (metis (mono_tags, lifting) case_prod_conv)

subsection \<open>Runs in which the user only clicks Stop\<close>

lemma stopsOnly_preserves:
  assumes "stopsOnly w" and "Q (scanResults (fst run)) (snd run)"
  shows "Q (scanResults (fst (interrupt w p run))) (snd (interrupt w p run))"
proof -
  from assms(1) have "interrupt w p run = run \<or> interrupt w p run = pressStop run"
    unfolding stopsOnly_def by blast
  then show ?thesis
    using assms(2) by (cases run) (auto simp: pressStop_def)
qed

lemma stopsOnly_onResults: "stopsOnly w \<Longrightarrow> onResults Q run \<Longrightarrow> onResults Q (interrupt w p run)"
  unfolding onResults_def by (rule stopsOnly_preserves)

subsection \<open>Entries that are kept, requests that are issued\<close>

lemma untouched_refl: "untouched keep rs rs"
  by (simp add: untouched_def)

lemma untouched_mapAt: "untouched keep rs0 rs \<Longrightarrow> \<not> keep k \<Longrightarrow> untouched keep rs0 (mapAt k f rs)"
  by (auto simp: untouched_def nth_mapAt)

lemma callsWithin_refl: "callsWithin U tr tr"
  by (simp add: callsWithin_def)

lemma callsWithin_Call:
  assumes "callsWithin U tr0 tr" and "u \<in> U"
  shows "callsWithin U tr0 (tr @ [Call u d])"
proof -
  from assms(1) obtain evs where evs: "tr = tr0 @ evs" "\<forall>u d. Call u d \<in> set evs \<longrightarrow> u \<in> U"
    unfolding callsWithin_def by blast
  have "tr @ [Call u d] = tr0 @ (evs @ [Call u d])" using evs(1) by simp
  moreover have "\<forall>v e. Call v e \<in> set (evs @ [Call u d]) \<longrightarrow> v \<in> U"
    using evs(2) assms(2) by auto
  ultimately show ?thesis unfolding callsWithin_def by blast
qed

lemma callsWithin_Pace:
  assumes "callsWithin U tr0 tr"
  shows "callsWithin U tr0 (tr @ [Pace n])"
proof -
  from assms(1) obtain evs where evs: "tr = tr0 @ evs" "\<forall>u d. Call u d \<in> set evs \<longrightarrow> u \<in> U"
    unfolding callsWithin_def by blast
  have "tr @ [Pace n] = tr0 @ (evs @ [Pace n])" using evs(1) by simp
  moreover have "\<forall>v e. Call v e \<in> set (evs @ [Pace n]) \<longrightarrow> v \<in> U"
    using evs(2) by auto
  ultimately show ?thesis unfolding callsWithin_def by blast
qed

subsection \<open>The entry of a URL\<close>

lemma lookup_matches_store:
  assumes same: "map url cap = map url rs"
    and mem: "u \<in> set (map url rs)"
  shows "\<exists>k. findIndex (\<lambda>r. url r = u) cap = Some k \<and> k < length rs \<and> url (rs ! k) = u"
proof -
  have "u \<in> set (map url cap)" using same mem by simp
  then have "findIndex (\<lambda>r. url r = u) cap \<noteq> None"
    by (auto simp: findIndex_None_iff)
  then obtain k where k: "findIndex (\<lambda>r. url r = u) cap = Some k" by auto
  from findIndex_SomeD [OF k] have kc: "k < length cap" "url (cap ! k) = u" by auto
  have len: "length cap = length rs" using same by (metis length_map)
  have "map url cap ! k = map url rs ! k" using same by simp
  with kc len have "url (rs ! k) = u" by simp
  with k kc(1) len show ?thesis by auto
qed

lemma distinct_url_index:
  assumes "distinct (map url rs)" and "j < length rs" and "k < length rs"
    and "url (rs ! j) = url (rs ! k)"
  shows "j = k"
proof -
  have "map url rs ! j = map url rs ! k" using assms(2,3,4) by simp
  moreover have "(map url rs ! j = map url rs ! k) = (j = k)"
    by (rule nth_eq_iff_index_eq) (simp_all add: assms)
  ultimately show ?thesis by simp
qed

text \<open>
  If a list agrees with \<open>rs\<close> outside index \<open>k\<close> and keeps the URL at \<open>k\<close>, and the URLs of
  \<open>rs\<close> are pairwise distinct, then its URLs are those of \<open>rs\<close> and its only entry with the
  URL of \<open>rs ! k\<close> is the one at \<open>k\<close>.
\<close>

lemma entry_of_url:
  assumes d: "distinct (map url rs)" and k: "k < length rs"
    and len: "length rs' = length rs"
    and uk: "url (rs' ! k) = url (rs ! k)"
    and other: "\<forall>j < length rs. j \<noteq> k \<longrightarrow> rs' ! j = rs ! j"
  shows "map url rs' = map url rs"
    and "r \<in> set rs' \<Longrightarrow> url r = url (rs ! k) \<Longrightarrow> r = rs' ! k"
    and "j < length rs \<Longrightarrow> url (rs ! j) \<noteq> url (rs ! k) \<Longrightarrow> rs' ! j = rs ! j"
proof -
  show urls: "map url rs' = map url rs"
  proof (rule nth_equalityI)
    show "length (map url rs') = length (map url rs)" using len by simp
    fix j assume "j < length (map url rs')"
    then have j: "j < length rs" using len by simp
    show "map url rs' ! j = map url rs ! j"
      using j len uk other by (cases "j = k") simp_all
  qed
  show "r = rs' ! k" if "r \<in> set rs'" "url r = url (rs ! k)"
  proof -
    from that(1) obtain j where j: "j < length rs'" "rs' ! j = r" by (auto simp: in_set_conv_nth)
    have "url (rs ! j) = url (rs ! k)"
    proof (cases "j = k")
      case True then show ?thesis by simp
    next
      case False
      with other j len have "rs' ! j = rs ! j" by simp
      with j(2) that(2) show ?thesis by simp
    qed
    with distinct_url_index [OF d _ k, of j] j(1) len have "j = k" by simp
    with j(2) show ?thesis by simp
  qed
  show "rs' ! j = rs ! j" if "j < length rs" "url (rs ! j) \<noteq> url (rs ! k)"
    using that other by (cases "j = k") simp_all
qed

subsection \<open>A run keeps the URLs of the result list\<close>

lemma map_url_mapAt: "(\<And>r. url (f r) = url r) \<Longrightarrow> map url (mapAt k f rs) = map url rs"
  by (rule nth_equalityI) (simp_all add: nth_mapAt)

lemma startPerformanceScanWithUrls_keeps_urls:
  assumes "stopsOnly w"
  shows "map url (scanResults (fst (startPerformanceScanWithUrls w cap queue (s, tr)))) = map url (scanResults s)"
proof -
  have "onResults (\<lambda>rs tr'. map url rs = map url (scanResults s)) (startPerformanceScanWithUrls w cap queue (s, tr))"
    by (rule startPerformanceScanWithUrls_results)
       (simp_all add: map_url_mapAt stopsOnly_onResults [OF assms])
  then show ?thesis by (simp add: onResults_def)
qed

lemma scanLoop_keeps_urls:
  assumes "stopsOnly w"
  shows "map url (scanResults (fst (scanLoop w cap queue (s, tr)))) = map url (scanResults s)"
proof -
  have "onResults (\<lambda>rs tr'. map url rs = map url (scanResults s)) (scanLoop w cap queue (s, tr))"
    by (rule scanLoop_results)
       (simp_all add: map_url_mapAt stopsOnly_onResults [OF assms])
  then show ?thesis by (simp add: onResults_def)
qed

section \<open>Evaluation of concrete runs\<close>

lemmas run_defs = startPerformanceScanWithUrls_def scanItem_def scanUrl_def await_def pace_def
  setScanning_def setCompleted_def setError_def mapAt_def enumerate_eq_zip newResult_def
  pressStop_def stopScan_def initialResults_def

lemma parse_a: "parseManualUrls ''https://a.test/'' = [''https://a.test/'']"
  by (simp add: parseManualUrls_def inputUrls_def arrayFromSet_def setAdd_def trim_def isWhite_def isSep_def)

lemma submittedTwice_eq:
  "scanResults submittedTwice = [completedResult ''https://a.test/'']"
  by (simp add: submittedTwice_def handleManualUrlsSubmit_def manualUrlItems_def parse_a
      trim_def isWhite_def initialState_def quiet_def completedResult_def run_defs)

lemma parse_ab: "parseManualUrls ''a,b'' = [''a'', ''b'']"
  by (simp add: parseManualUrls_def inputUrls_def arrayFromSet_def setAdd_def trim_def isWhite_def isSep_def)

lemma parse_bc: "parseManualUrls ''b,c'' = [''b'', ''c'']"
  by (simp add: parseManualUrls_def inputUrls_def arrayFromSet_def setAdd_def trim_def isWhite_def isSep_def)

lemma submittedAB_eq:
  "submittedAB = \<lparr>urls = queueOf [''a'', ''b''], isScanning = False,
      scanResults = [newResult ''a'', newResult ''b''], currentScanIndex = None,
      currentScanDevice = None, stopScanningRef = False\<rparr>"
  by (simp add: submittedAB_def handleManualUrlsSubmit_def manualUrlItems_def parse_ab queueOf_def
      trim_def isWhite_def initialState_def quiet_def run_defs)

lemma parse_abc: "parseManualUrls ''a,b,c'' = [''a'', ''b'', ''c'']"
  by (simp add: parseManualUrls_def inputUrls_def arrayFromSet_def setAdd_def trim_def isWhite_def isSep_def)

lemma parse_bcd: "parseManualUrls ''b,c,d'' = [''b'', ''c'', ''d'']"
  by (simp add: parseManualUrls_def inputUrls_def arrayFromSet_def setAdd_def trim_def isWhite_def isSep_def)

lemma submittedABC_eq:
  "submittedABC = \<lparr>urls = queueOf [''a'', ''b'', ''c''], isScanning = False,
      scanResults = [newResult ''a'', newResult ''b'', newResult ''c''], currentScanIndex = None,
      currentScanDevice = None, stopScanningRef = False\<rparr>"
  by (simp add: submittedABC_def handleManualUrlsSubmit_def manualUrlItems_def parse_abc queueOf_def
      trim_def isWhite_def initialState_def quiet_def run_defs)

section \<open>Retry of the failed items\<close>

lemma findIndex_distinct:
  assumes "distinct (map url rs)" and "r \<in> set rs" and "findIndex (\<lambda>x. url x = url r) rs = Some k"
  shows "rs ! k = r"
proof -
  from findIndex_SomeD [OF assms(3)] have k: "k < length rs" "url (rs ! k) = url r" by auto
  from assms(2) obtain j where j: "j < length rs" "rs ! j = r" by (auto simp: in_set_conv_nth)
  have "map url rs ! k = map url rs ! j" using k j by simp
  moreover have "(map url rs ! k = map url rs ! j) = (k = j)"
    by (rule nth_eq_iff_index_eq) (simp_all add: assms(1) k(1) j(1))
  ultimately have "k = j" by simp
  with j show ?thesis by simp
qed

text \<open>
  C1. \<open>rescanErrorUrls\<close> on a result list with pairwise distinct URLs, the user doing
  nothing but possibly clicking Stop: the list keeps its length, every entry whose status
  was not \<open>error\<close> (in particular every completed one) is the same record afterwards, and
  every request the run issues is for the URL of an entry that was failed.
\<close>

theorem C1_retry_touches_failed_items_only:
  assumes w: "stopsOnly w" and d: "distinct (map url (scanResults s))"
  shows "length (scanResults (fst (rescanErrorUrls w confirmed (s, tr)))) = length (scanResults s)
     \<and> (\<forall>j < length (scanResults s). status (scanResults s ! j) \<noteq> Error \<longrightarrow>
            scanResults (fst (rescanErrorUrls w confirmed (s, tr))) ! j = scanResults s ! j)
     \<and> (\<exists>evs. snd (rescanErrorUrls w confirmed (s, tr)) = tr @ evs
            \<and> (\<forall>u d. Call u d \<in> set evs \<longrightarrow> (\<exists>r \<in> set (scanResults s). status r = Error \<and> url r = u)))"
proof -
  define rs0 where "rs0 = scanResults s"
  define keep where "keep = (\<lambda>j. status (rs0 ! j) \<noteq> Error)"
  define U where "U = {u. \<exists>r \<in> set rs0. status r = Error \<and> url r = u}"
  define Q where "Q = (\<lambda>rs tr'. untouched keep rs0 rs \<and> callsWithin U tr tr')"
  define queue where "queue = map (\<lambda>r. \<lparr>UrlItem.url = url r, selected = True\<rparr>) (filter (\<lambda>r. status r = Error) rs0)"
  define reset where "reset = map (\<lambda>result. if status result = Error then result\<lparr>status := Pending, error := None\<rparr> else result) rs0"
  have idx: "\<not> keep k" if "item \<in> set queue" "findIndex (\<lambda>r. url r = UrlItem.url item) rs0 = Some k" for item k
  proof -
    from that(1) obtain r where r: "r \<in> set rs0" "status r = Error" "UrlItem.url item = url r"
      by (auto simp: queue_def)
    from findIndex_distinct [of rs0 r k] d r that(2) have "rs0 ! k = r" by (simp add: rs0_def)
    with r(2) show ?thesis by (simp add: keep_def)
  qed
  have inU: "UrlItem.url item \<in> U" if "item \<in> set queue" for item
    using that by (auto simp: queue_def U_def)
  have Qrun: "onResults Q (rescanErrorUrls w confirmed (s, tr))"
  proof (cases "filter (\<lambda>r. status r = Error) rs0 = [] \<or> \<not> confirmed")
    case True
    then show ?thesis
      by (auto simp: rescanErrorUrls_def Let_def Q_def rs0_def untouched_def callsWithin_refl)
  next
    case False
    have "onResults Q (startPerformanceScanWithUrls w rs0 queue (s\<lparr>scanResults := reset\<rparr>, tr))"
    proof (rule startPerformanceScanWithUrls_results)
      show "Q (scanResults (s\<lparr>scanResults := reset\<rparr>)) tr"
        by (simp add: Q_def untouched_def callsWithin_refl reset_def keep_def)
      show "\<And>p run. onResults Q run \<Longrightarrow> onResults Q (interrupt w p run)"
        by (rule stopsOnly_onResults [OF w])
    qed (auto simp: Q_def intro: untouched_mapAt callsWithin_Call callsWithin_Pace dest: idx inU)
    with False show ?thesis
      by (simp add: rescanErrorUrls_def Let_def rs0_def queue_def reset_def)
  qed
  then have u: "untouched keep rs0 (scanResults (fst (rescanErrorUrls w confirmed (s, tr))))"
    and c: "callsWithin U tr (snd (rescanErrorUrls w confirmed (s, tr)))"
    by (simp_all add: onResults_def Q_def)
  from c obtain evs where evs: "snd (rescanErrorUrls w confirmed (s, tr)) = tr @ evs"
      "\<forall>u d. Call u d \<in> set evs \<longrightarrow> u \<in> U"
    unfolding callsWithin_def by blast
  from evs(2) have "\<forall>u d. Call u d \<in> set evs \<longrightarrow> (\<exists>r \<in> set (scanResults s). status r = Error \<and> url r = u)"
    by (simp add: U_def rs0_def)
  with evs(1) u show ?thesis
    unfolding untouched_def keep_def rs0_def by blast
qed

theorem C1_witness:
  "scanResults (fst (rescanErrorUrls quiet True (stateABC, []))) ! 0 = completedResult ''A''
   \<and> scanResults (fst (rescanErrorUrls quiet True (stateABC, []))) ! 2 = completedResult ''C''
   \<and> status (scanResults (fst (rescanErrorUrls quiet True (stateABC, []))) ! 1) = Completed
   \<and> snd (rescanErrorUrls quiet True (stateABC, [])) = [Call ''B'' Mobile, Pace 3000, Call ''B'' Desktop]"
proof -
  have w: "stopsOnly quiet" by (simp add: stopsOnly_def quiet_def)
  have d: "distinct (map url (scanResults stateABC))"
    by (simp add: stateABC_def completedResult_def failedResult_def)
  have k: "status (scanResults stateABC ! 0) \<noteq> Error" "status (scanResults stateABC ! 2) \<noteq> Error"
     "(0::nat) < length (scanResults stateABC)" "(2::nat) < length (scanResults stateABC)"
     "scanResults stateABC ! 0 = completedResult ''A''" "scanResults stateABC ! 2 = completedResult ''C''"
    by (simp_all add: stateABC_def completedResult_def)
  from C1_retry_touches_failed_items_only [OF w d, of True "[]"] k
  have "scanResults (fst (rescanErrorUrls quiet True (stateABC, []))) ! 0 = completedResult ''A''"
     and "scanResults (fst (rescanErrorUrls quiet True (stateABC, []))) ! 2 = completedResult ''C''"
    by metis+
  moreover have "status (scanResults (fst (rescanErrorUrls quiet True (stateABC, []))) ! 1) = Completed"
     and "snd (rescanErrorUrls quiet True (stateABC, [])) = [Call ''B'' Mobile, Pace 3000, Call ''B'' Desktop]"
    by (simp_all add: rescanErrorUrls_def stateABC_def completedResult_def failedResult_def quiet_def run_defs)
  ultimately show ?thesis by simp
qed

section \<open>Stop after the mobile request\<close>

lemma scanItem_stop_in_wait:
  assumes run: "\<not> stopScanningRef s"
    and k: "findIndex (\<lambda>r. url r = UrlItem.url item) cap = Some k"
    and ok: "respond w (length tr) (UrlItem.url item) Mobile = Inr m"
    and q0: "quietAt w (length tr)"
    and st: "stopAt w (length tr + 1)"
  shows "\<exists>s'. scanItem w cap item nl (s, tr) = (Break, (s', tr @ [Call (UrlItem.url item) Mobile, Pace 3000]))
     \<and> scanResults s' = mapAt k (\<lambda>result. result\<lparr>status := Scanning\<rparr>) (scanResults s)
     \<and> stopScanningRef s'"
  using run k ok await_quietAt [OF q0] await_stopAt [of w "tr @ [Call (UrlItem.url item) Mobile]"] st
  by (simp add: scanItem_def scanUrl_def pace_def)

lemma scanItem_stop_in_desktop:
  assumes w: "stopsOnly w"
    and run: "\<not> stopScanningRef s"
    and k: "findIndex (\<lambda>r. url r = UrlItem.url item) cap = Some k"
    and ok: "respond w (length tr) (UrlItem.url item) Mobile = Inr m"
    and q0: "quietAt w (length tr)"
    and q1: "quietAt w (length tr + 1)"
    and st: "stopAt w (length tr + 2)"
  shows "\<exists>s' f evs. scanItem w cap item nl (s, tr)
        = (Continue, (s', tr @ [Call (UrlItem.url item) Mobile, Pace 3000, Call (UrlItem.url item) Desktop] @ evs))
     \<and> scanResults s' = mapAt k f (mapAt k (\<lambda>result. result\<lparr>status := Scanning\<rparr>) (scanResults s))
     \<and> (\<forall>r. status (f r) = Completed \<or> status (f r) = Error)
     \<and> (\<forall>r. url (f r) = url r)
     \<and> (evs = [] \<or> evs = [Pace 3000])
     \<and> stopScanningRef s'"
proof -
  define u where "u = UrlItem.url item"
  define s6 where "s6 = (setScanning k (s\<lparr>currentScanIndex := Some k\<rparr>))\<lparr>currentScanDevice := Some Desktop\<rparr>"
  define tr7 where "tr7 = tr @ [Call u Mobile, Pace 3000, Call u Desktop]"
  have a0: "await w (Call u Mobile) (s', tr) = (s', tr @ [Call u Mobile])" for s'
    by (rule await_quietAt [OF q0])
  have a1: "await w (Pace 3000) (s', tr @ [Call u Mobile]) = (s', tr @ [Call u Mobile, Pace 3000])" for s'
    using await_quietAt [of w "tr @ [Call u Mobile]" "Pace 3000" s'] q1 by simp
  have a2: "await w (Call u Desktop) (s', tr @ [Call u Mobile, Pace 3000]) = (stopScan s', tr7)" for s'
    using await_stopAt [of w "tr @ [Call u Mobile, Pace 3000]" "Call u Desktop" s'] st by (simp add: tr7_def)
  show ?thesis
  proof (cases "respond w (length tr + 2) u Desktop")
    case (Inl message)
    have "scanItem w cap item nl (s, tr) = (Continue, (setError k message (stopScan s6), tr7))"
      using run k ok Inl by (simp add: scanItem_def scanUrl_def pace_def a0 a1 a2 u_def [symmetric] s6_def)
    then show ?thesis
      by (intro exI [of _ "setError k message (stopScan s6)"]
            exI [of _ "\<lambda>result. result\<lparr>status := Error, error := Some message\<rparr>"] exI [of _ "[]"])
         (simp add: tr7_def u_def s6_def)
  next
    case (Inr d)
    define s8 where "s8 = setCompleted k m d (stopScan s6)"
    have item: "scanItem w cap item nl (s, tr) = (Continue, (if nl then pace w (s8, tr7) else (s8, tr7)))"
      using run k ok Inr by (simp add: scanItem_def scanUrl_def pace_def a0 a1 a2 u_def [symmetric] s6_def s8_def)
    have r8: "scanResults s8 = mapAt k (\<lambda>result. result\<lparr>status := Completed, mobile := Some m,
                                   desktop := Some d, error := None\<rparr>)
                 (mapAt k (\<lambda>result. result\<lparr>status := Scanning\<rparr>) (scanResults s))"
      by (simp add: s8_def s6_def)
    have f8: "stopScanningRef s8" by (simp add: s8_def)
    show ?thesis
    proof (cases nl)
      case False
      with item r8 f8 show ?thesis
        by (intro exI [of _ s8]
            exI [of _ "\<lambda>result. result\<lparr>status := Completed, mobile := Some m, desktop := Some d, error := None\<rparr>"]
            exI [of _ "[]"]) (simp add: tr7_def u_def)
    next
      case True
      from pace_stopsOnly [OF w, of s8 tr7]
      obtain s9 where s9: "pace w (s8, tr7) = (s9, tr7 @ [Pace 3000])" "s9 = s8 \<or> s9 = stopScan s8"
        by blast
      from s9(2) r8 f8 have "scanResults s9 = scanResults s8" "stopScanningRef s9" by auto
      with item True s9(1) r8 show ?thesis
        by (intro exI [of _ s9]
            exI [of _ "\<lambda>result. result\<lparr>status := Completed, mobile := Some m, desktop := Some d, error := None\<rparr>"]
            exI [of _ "[Pace 3000]"]) (simp add: tr7_def u_def)
    qed
  qed
qed

lemma stop_after_mobile_at_index:
  assumes w: "stopsOnly w"
    and run: "\<not> stopScanningRef s"
    and k: "findIndex (\<lambda>r. url r = UrlItem.url item) cap = Some k"
    and len: "k < length (scanResults s)"
    and ok: "respond w (length tr) (UrlItem.url item) Mobile = Inr m"
    and q0: "quietAt w (length tr)"
    and press: "stopAt w (length tr + 1) \<or> (quietAt w (length tr + 1) \<and> stopAt w (length tr + 2))"
    and final: "final = scanLoop w cap (item # rest) (s, tr)"
  shows "(stopAt w (length tr + 1) \<longrightarrow>
            status (scanResults (fst final) ! k) = Scanning
          \<and> snd final = tr @ [Call (UrlItem.url item) Mobile, Pace 3000])
     \<and> (quietAt w (length tr + 1) \<longrightarrow>
            (status (scanResults (fst final) ! k) = Completed \<or> status (scanResults (fst final) ! k) = Error)
          \<and> (snd final = tr @ [Call (UrlItem.url item) Mobile, Pace 3000, Call (UrlItem.url item) Desktop]
              \<or> snd final = tr @ [Call (UrlItem.url item) Mobile, Pace 3000, Call (UrlItem.url item) Desktop,
                                  Pace 3000]))
     \<and> length (scanResults (fst final)) = length (scanResults s)
     \<and> url (scanResults (fst final) ! k) = url (scanResults s ! k)
     \<and> (\<forall>j < length (scanResults s). j \<noteq> k \<longrightarrow> scanResults (fst final) ! j = scanResults s ! j)"
proof -
  have excl: "\<not> (stopAt w p \<and> quietAt w p)" for p
  proof
    assume a: "stopAt w p \<and> quietAt w p"
    then have "interrupt w p (s, tr) = pressStop (s, tr)" "interrupt w p (s, tr) = (s, tr)"
      unfolding stopAt_def quietAt_def by blast+
    then have "stopScan s = s" by (simp add: pressStop_def)
    then have "stopScanningRef s" using flag_simps(4) [of s] by simp
    with run show False by simp
  qed
  show ?thesis
  proof (cases "stopAt w (length tr + 1)")
    case True
    from scanItem_stop_in_wait [OF run k ok q0 True, of "rest \<noteq> []"]
    obtain s' where s': "scanItem w cap item (rest \<noteq> []) (s, tr) = (Break, (s', tr @ [Call (UrlItem.url item) Mobile, Pace 3000]))"
      "scanResults s' = mapAt k (\<lambda>result. result\<lparr>status := Scanning\<rparr>) (scanResults s)"
      by blast
    have fin: "final = (s', tr @ [Call (UrlItem.url item) Mobile, Pace 3000])"
      using final s'(1) by simp
    from True excl [of "length tr + 1"] have nq: "\<not> quietAt w (length tr + 1)" by blast
    show ?thesis
      using len nq True by (simp add: fin s'(2) nth_mapAt)
  next
    case False
    with press have q1: "quietAt w (length tr + 1)" and st: "stopAt w (length tr + 2)" by auto
    from scanItem_stop_in_desktop [OF w run k ok q0 q1 st, of "rest \<noteq> []"]
    obtain s' f evs where s': "scanItem w cap item (rest \<noteq> []) (s, tr)
        = (Continue, (s', tr @ [Call (UrlItem.url item) Mobile, Pace 3000, Call (UrlItem.url item) Desktop] @ evs))"
      "scanResults s' = mapAt k f (mapAt k (\<lambda>result. result\<lparr>status := Scanning\<rparr>) (scanResults s))"
      "\<forall>r. status (f r) = Completed \<or> status (f r) = Error"
      "\<forall>r. url (f r) = url r"
      "evs = [] \<or> evs = [Pace 3000]"
      "stopScanningRef s'"
      by blast
    have fin: "final = (s', tr @ [Call (UrlItem.url item) Mobile, Pace 3000, Call (UrlItem.url item) Desktop] @ evs)"
      using final s'(1) scanLoop_stopped [OF s'(6)] by simp
    have "status (scanResults (fst final) ! k) = Completed \<or> status (scanResults (fst final) ! k) = Error"
      using len s'(3) by (simp add: fin s'(2) nth_mapAt)
    moreover have "snd final = tr @ [Call (UrlItem.url item) Mobile, Pace 3000, Call (UrlItem.url item) Desktop]
              \<or> snd final = tr @ [Call (UrlItem.url item) Mobile, Pace 3000, Call (UrlItem.url item) Desktop,
                                  Pace 3000]"
      using s'(5) by (auto simp: fin)
    moreover have "length (scanResults (fst final)) = length (scanResults s)"
      by (simp add: fin s'(2))
    moreover have "url (scanResults (fst final) ! k) = url (scanResults s ! k)"
      using len s'(4) by (simp add: fin s'(2) nth_mapAt)
    moreover have "\<forall>j < length (scanResults s). j \<noteq> k \<longrightarrow> scanResults (fst final) ! j = scanResults s ! j"
      by (simp add: fin s'(2) nth_mapAt)
    ultimately show ?thesis using False by simp
  qed
qed




section \<open>The order of the requests\<close>

lemma scanItem_success:
  assumes "\<not> stopScanningRef s"
    and "findIndex (\<lambda>r. url r = UrlItem.url item) cap = Some k"
    and "\<forall>p. quietAt w p"
    and "respond w (length tr) (UrlItem.url item) Mobile = Inr m"
    and "respond w (length tr + 2) (UrlItem.url item) Desktop = Inr d"
  shows "\<exists>s'. \<not> stopScanningRef s' \<and> scanItem w cap item nl (s, tr) =
     (Continue, (s', tr @ [Call (UrlItem.url item) Mobile, Pace 3000, Call (UrlItem.url item) Desktop]
                       @ (if nl then [Pace 3000] else [])))"
proof -
  have q: "\<And>e s tr. await w e (s, tr) = (s, tr @ [e])"
    using assms(3) by (simp add: await_quietAt)
  show ?thesis
    using assms(1,2,4,5) by (simp add: scanItem_def scanUrl_def pace_def q Let_def)
qed

lemma butlast_itemEvents:
  "butlast (concat (map itemEvents (item # rest))) =
     [Call (UrlItem.url item) Mobile, Pace 3000, Call (UrlItem.url item) Desktop]
       @ (if rest \<noteq> [] then [Pace 3000] @ butlast (concat (map itemEvents rest)) else [])"
proof (cases rest)
  case Nil
  then show ?thesis by (simp add: itemEvents_def)
next
  case (Cons a as)
  then have "concat (map itemEvents rest) \<noteq> []" by (simp add: itemEvents_def)
  then show ?thesis using Cons by (simp add: butlast_append) (simp add: itemEvents_def)
qed

lemma scanLoop_success:
  assumes "\<forall>p. quietAt w p"
    and "\<forall>p u d. \<exists>r. respond w p u d = Inr r"
    and "\<forall>item \<in> set queue. findIndex (\<lambda>r. url r = UrlItem.url item) cap \<noteq> None"
    and "\<not> stopScanningRef s"
  shows "snd (scanLoop w cap queue (s, tr)) = tr @ butlast (concat (map itemEvents queue))"
  using assms(3,4)
proof (induction queue arbitrary: s tr)
  case Nil
  then show ?case by simp
next
  case (Cons item rest)
  from Cons.prems(1) obtain k where k: "findIndex (\<lambda>r. url r = UrlItem.url item) cap = Some k"
    by auto
  from assms(2) obtain m where m: "respond w (length tr) (UrlItem.url item) Mobile = Inr m" by blast
  from assms(2) obtain d where d: "respond w (length tr + 2) (UrlItem.url item) Desktop = Inr d" by blast
  from scanItem_success [OF Cons.prems(2) k assms(1) m d, of "rest \<noteq> []"]
  obtain s' where s': "\<not> stopScanningRef s'"
     "scanItem w cap item (rest \<noteq> []) (s, tr) =
     (Continue, (s', tr @ [Call (UrlItem.url item) Mobile, Pace 3000, Call (UrlItem.url item) Desktop]
                       @ (if rest \<noteq> [] then [Pace 3000] else [])))"
    by blast
  have "\<forall>item \<in> set rest. findIndex (\<lambda>r. url r = UrlItem.url item) cap \<noteq> None"
    using Cons.prems(1) by simp
  from Cons.IH [OF this s'(1)] s'(2) show ?case
    unfolding butlast_itemEvents by (cases "rest = []") simp_all
qed

text \<open>
  C3 (as amended). In a run in which the user does nothing, every request succeeds and
  every URL of the queue is found in the result list the loop looks up, the events are,
  for each item in queue order, the mobile request, a wait of 3000 ms, the desktop
  request and a wait of 3000 ms, except that no wait follows the last request of the
  run.
\<close>

theorem C3_calls_in_queue_order_pace_between:
  assumes "\<forall>p. quietAt w p"
    and "\<forall>p u d. \<exists>r. respond w p u d = Inr r"
    and "\<forall>item \<in> set queue. findIndex (\<lambda>r. url r = UrlItem.url item) cap \<noteq> None"
  shows "snd (startPerformanceScanWithUrls w cap queue (s, tr))
           = tr @ butlast (concat (map itemEvents queue))"
proof -
  have "snd (scanLoop w cap queue (s\<lparr>isScanning := True, stopScanningRef := False\<rparr>, tr))
          = tr @ butlast (concat (map itemEvents queue))"
    by (rule scanLoop_success [OF assms]) simp
  then show ?thesis
    by (cases "scanLoop w cap queue (s\<lparr>isScanning := True, stopScanningRef := False\<rparr>, tr)")
       (simp add: startPerformanceScanWithUrls_def)
qed

theorem C3_witness:
  "snd (startPerformanceScanWithUrls quiet (map newResult [''A'', ''B'', ''C'']) (queueOf [''A'', ''B'', ''C''])
         (pendingState [''A'', ''B'', ''C''], []))
     = [Call ''A'' Mobile, Pace 3000, Call ''A'' Desktop, Pace 3000,
        Call ''B'' Mobile, Pace 3000, Call ''B'' Desktop, Pace 3000,
        Call ''C'' Mobile, Pace 3000, Call ''C'' Desktop]"
proof -
  have a: "\<forall>p. quietAt quiet p" by (simp add: quietAt_def quiet_def)
  have b: "\<forall>p u d. \<exists>r. respond quiet p u d = Inr r" by (simp add: quiet_def)
  have c: "\<forall>item \<in> set (queueOf [''A'', ''B'', ''C'']).
      findIndex (\<lambda>r. url r = UrlItem.url item) (map newResult [''A'', ''B'', ''C'']) \<noteq> None"
    by (simp add: queueOf_def newResult_def)
  from C3_calls_in_queue_order_pace_between [OF a b c, of "pendingState [''A'', ''B'', ''C'']" "[]"]
  show ?thesis by (simp add: queueOf_def itemEvents_def)
qed

text \<open>
  The claim as stated, with a wait after each request, fails for the queue A, B, C: the
  trace ends with the desktop request of C. And an item whose URL is not found in the
  list the loop looks up is skipped: with an empty list, as captured before the first
  results were set, the same run issues no request.
\<close>

theorem C3_counterexample:
  "snd (startPerformanceScanWithUrls quiet (map newResult [''A'', ''B'', ''C'']) (queueOf [''A'', ''B'', ''C''])
         (pendingState [''A'', ''B'', ''C''], []))
     \<noteq> concat (map itemEvents (queueOf [''A'', ''B'', ''C'']))
   \<and> last (snd (startPerformanceScanWithUrls quiet (map newResult [''A'', ''B'', ''C''])
         (queueOf [''A'', ''B'', ''C'']) (pendingState [''A'', ''B'', ''C''], []))) = Call ''C'' Desktop
   \<and> snd (startPerformanceScanWithUrls quiet [] (queueOf [''A'', ''B'', ''C''])
         (pendingState [''A'', ''B'', ''C''], [])) = []"
  by (simp add: quiet_def pendingState_def queueOf_def itemEvents_def run_defs)

section \<open>A failed mobile request\<close>

lemma scanItem_mobile_fails:
  assumes w: "stopsOnly w"
    and run: "\<not> stopScanningRef s"
    and k: "findIndex (\<lambda>r. url r = UrlItem.url item) cap = Some k"
    and fail: "respond w (length tr) (UrlItem.url item) Mobile = Inl message"
  shows "\<exists>s'. scanItem w cap item nl (s, tr) = (Continue, (s', tr @ [Call (UrlItem.url item) Mobile]))
     \<and> scanResults s' = mapAt k (\<lambda>result. result\<lparr>status := Error, error := Some message\<rparr>)
                           (mapAt k (\<lambda>result. result\<lparr>status := Scanning\<rparr>) (scanResults s))
     \<and> (quietAt w (length tr) \<longrightarrow> \<not> stopScanningRef s')"
proof -
  define s3 where "s3 = (setScanning k (s\<lparr>currentScanIndex := Some k\<rparr>))\<lparr>currentScanDevice := Some Mobile\<rparr>"
  define e where "e = Call (UrlItem.url item) Mobile"
  have item: "scanItem w cap item nl (s, tr) = (Continue, (setError k message (fst (await w e (s3, tr))), snd (await w e (s3, tr))))"
    using run k fail by (simp add: scanItem_def scanUrl_def s3_def e_def split: prod.splits)
  from await_stopsOnly [OF w, of e s3 tr]
  have "await w e (s3, tr) = (s3, tr @ [e]) \<or> await w e (s3, tr) = (stopScan s3, tr @ [e])" .
  moreover have "quietAt w (length tr) \<Longrightarrow> await w e (s3, tr) = (s3, tr @ [e])"
    by (rule await_quietAt)
  moreover have "\<not> stopScanningRef s3" using run by (simp add: s3_def)
  ultimately show ?thesis
    unfolding item by (auto simp: s3_def e_def)
qed

lemma failed_mobile_call_at_index:
  assumes w: "stopsOnly w"
    and run: "\<not> stopScanningRef s"
    and k: "findIndex (\<lambda>r. url r = UrlItem.url item) cap = Some k"
    and len: "k < length (scanResults s)"
    and fail: "respond w (length tr) (UrlItem.url item) Mobile = Inl message"
    and nod: "desktop (scanResults s ! k) = None"
    and once: "UrlItem.url item \<notin> UrlItem.url ` set rest"
    and final: "final = scanLoop w cap (item # rest) (s, tr)"
  shows "\<exists>s' evs.
       final = scanLoop w cap rest (s', tr @ [Call (UrlItem.url item) Mobile])
     \<and> (quietAt w (length tr) \<longrightarrow> \<not> stopScanningRef s')
     \<and> snd final = tr @ [Call (UrlItem.url item) Mobile] @ evs
     \<and> (\<forall>d. Call (UrlItem.url item) d \<notin> set evs)
     \<and> status (scanResults (fst final) ! k) = Error
     \<and> desktop (scanResults (fst final) ! k) = None
     \<and> error (scanResults (fst final) ! k) = Some message
     \<and> url (scanResults (fst final) ! k) = url (scanResults s ! k)"
proof -
  define u where "u = UrlItem.url item"
  define tr1 where "tr1 = tr @ [Call u Mobile]"
  from scanItem_mobile_fails [OF w run k fail, of "rest \<noteq> []"]
  obtain s' where s': "scanItem w cap item (rest \<noteq> []) (s, tr) = (Continue, (s', tr1))"
     "scanResults s' = mapAt k (\<lambda>result. result\<lparr>status := Error, error := Some message\<rparr>)
                           (mapAt k (\<lambda>result. result\<lparr>status := Scanning\<rparr>) (scanResults s))"
     "quietAt w (length tr) \<longrightarrow> \<not> stopScanningRef s'"
    unfolding u_def tr1_def by blast
  have loop: "final = scanLoop w cap rest (s', tr1)"
    using final s'(1) by simp
  have entry: "status (scanResults s' ! k) = Error" "desktop (scanResults s' ! k) = None"
      "error (scanResults s' ! k) = Some message"
      "url (scanResults s' ! k) = url (scanResults s ! k)"
    using len nod by (simp_all add: s'(2) nth_mapAt)
  define Q where "Q = (\<lambda>rs tr'. untouched (\<lambda>j. j = k) (scanResults s') rs \<and> callsWithin {v. v \<noteq> u} tr1 tr')"
  have other: "k' \<noteq> k" if "item' \<in> set rest" "findIndex (\<lambda>r. url r = UrlItem.url item') cap = Some k'" for item' k'
  proof
    assume "k' = k"
    with findIndex_SomeD [OF that(2)] findIndex_SomeD [OF k] have "UrlItem.url item' = UrlItem.url item"
      by simp
    then have "UrlItem.url item \<in> UrlItem.url ` set rest"
      using that(1) by (metis imageI)
    with once show False by simp
  qed
  have notu: "UrlItem.url item' \<in> {v. v \<noteq> u}" if "item' \<in> set rest" for item'
  proof -
    have "UrlItem.url item' \<in> UrlItem.url ` set rest" using that by (rule imageI)
    with once show ?thesis by (auto simp: u_def)
  qed
  have "onResults Q (scanLoop w cap rest (s', tr1))"
  proof (rule scanLoop_results)
    show "onResults Q (s', tr1)" by (simp add: Q_def untouched_refl callsWithin_refl)
    show "\<And>p run. onResults Q run \<Longrightarrow> onResults Q (interrupt w p run)"
      by (rule stopsOnly_onResults [OF w])
  qed (auto simp: Q_def intro: untouched_mapAt callsWithin_Call callsWithin_Pace dest: other notu)
  then have un: "untouched (\<lambda>j. j = k) (scanResults s') (scanResults (fst final))"
    and cw: "callsWithin {v. v \<noteq> u} tr1 (snd final)"
    by (simp_all add: onResults_def Q_def loop)
  have klen: "k < length (scanResults s')" using len by (simp add: s'(2))
  from un klen have same: "scanResults (fst final) ! k = scanResults s' ! k"
    by (simp add: untouched_def)
  from cw obtain evs where evs: "snd final = tr1 @ evs" "\<forall>v d. Call v d \<in> set evs \<longrightarrow> v \<noteq> u"
    unfolding callsWithin_def by blast
  have "\<forall>d. Call (UrlItem.url item) d \<notin> set evs" using evs(2) by (auto simp: u_def)
  moreover have "snd final = tr @ [Call (UrlItem.url item) Mobile] @ evs"
    using evs(1) by (simp add: tr1_def u_def)
  moreover have "final = scanLoop w cap rest (s', tr @ [Call (UrlItem.url item) Mobile])"
    using loop by (simp add: tr1_def u_def)
  ultimately show ?thesis
    using s'(3) entry same by auto
qed

lemma failed_mobile_call_at_index_example:
  "status (scanResults (fst (scanLoop (failingAt 0) (map newResult [''A'', ''B'', ''C''])
        (queueOf [''B'', ''C'']) (pendingState [''A'', ''B'', ''C''], []))) ! 1) = Error
   \<and> desktop (scanResults (fst (scanLoop (failingAt 0) (map newResult [''A'', ''B'', ''C''])
        (queueOf [''B'', ''C'']) (pendingState [''A'', ''B'', ''C''], []))) ! 1) = None
   \<and> error (scanResults (fst (scanLoop (failingAt 0) (map newResult [''A'', ''B'', ''C''])
        (queueOf [''B'', ''C'']) (pendingState [''A'', ''B'', ''C''], []))) ! 1) = Some ''Failed to scan URL''
   \<and> snd (scanLoop (failingAt 0) (map newResult [''A'', ''B'', ''C''])
        (queueOf [''B'', ''C'']) (pendingState [''A'', ''B'', ''C''], []))
      = [Call ''B'' Mobile, Call ''C'' Mobile, Pace 3000, Call ''C'' Desktop]
   \<and> status (scanResults (fst (scanLoop (failingAt 0) (map newResult [''A'', ''B'', ''C''])
        (queueOf [''B'', ''C'']) (pendingState [''A'', ''B'', ''C''], []))) ! 2) = Completed"
proof -
  define item where "item = \<lparr>UrlItem.url = ''B'', selected = True\<rparr>"
  define rest where "rest = queueOf [''C'']"
  define final where "final = scanLoop (failingAt 0) (map newResult [''A'', ''B'', ''C''])
        (item # rest) (pendingState [''A'', ''B'', ''C''], [])"
  have q: "queueOf [''B'', ''C''] = item # rest" by (simp add: queueOf_def item_def rest_def)
  have w: "stopsOnly (failingAt 0)" by (simp add: stopsOnly_def failingAt_def)
  have run: "\<not> stopScanningRef (pendingState [''A'', ''B'', ''C''])" by (simp add: pendingState_def)
  have k: "findIndex (\<lambda>r. url r = UrlItem.url item) (map newResult [''A'', ''B'', ''C'']) = Some 1"
    by (simp add: item_def newResult_def)
  have len: "1 < length (scanResults (pendingState [''A'', ''B'', ''C'']))" by (simp add: pendingState_def)
  have fail: "respond (failingAt 0) (length ([] :: Event list)) (UrlItem.url item) Mobile = Inl ''Failed to scan URL''"
    by (simp add: failingAt_def)
  have nod: "desktop (scanResults (pendingState [''A'', ''B'', ''C'']) ! 1) = None"
    by (simp add: pendingState_def newResult_def)
  have once: "UrlItem.url item \<notin> UrlItem.url ` set rest" by (simp add: item_def rest_def queueOf_def)
  from failed_mobile_call_at_index [OF w run k len fail nod once final_def]
  have "status (scanResults (fst final) ! 1) = Error \<and> desktop (scanResults (fst final) ! 1) = None
     \<and> error (scanResults (fst final) ! 1) = Some ''Failed to scan URL''" by blast
  moreover have "snd final = [Call ''B'' Mobile, Call ''C'' Mobile, Pace 3000, Call ''C'' Desktop]"
    "status (scanResults (fst final) ! 2) = Completed"
    by (simp_all add: final_def item_def rest_def failingAt_def pendingState_def queueOf_def run_defs)
  ultimately show ?thesis unfolding q final_def by simp
qed

text \<open>
  When the list the loop looks up has the URLs of the result list, pairwise distinct, the
  failure is recorded on the entry of the item: the loop goes on with the rest of the
  queue, no further request for the item is issued, and at the end of the run the entry
  with the item's URL has status \<open>error\<close>, the message as its error and no desktop
  result.
\<close>

lemma failed_mobile_call_with_matching_lookup:
  assumes w: "stopsOnly w"
    and run: "\<not> stopScanningRef s"
    and same: "map url cap = map url (scanResults s)"
    and d: "distinct (map url (scanResults s))"
    and mem: "UrlItem.url item \<in> set (map url (scanResults s))"
    and fail: "respond w (length tr) (UrlItem.url item) Mobile = Inl message"
    and nod: "\<forall>r \<in> set (scanResults s). url r = UrlItem.url item \<longrightarrow> desktop r = None"
    and once: "UrlItem.url item \<notin> UrlItem.url ` set rest"
    and final: "final = scanLoop w cap (item # rest) (s, tr)"
  shows "(\<exists>s'. final = scanLoop w cap rest (s', tr @ [Call (UrlItem.url item) Mobile])
            \<and> (quietAt w (length tr) \<longrightarrow> \<not> stopScanningRef s'))
     \<and> (\<exists>evs. snd final = tr @ [Call (UrlItem.url item) Mobile] @ evs
            \<and> (\<forall>d. Call (UrlItem.url item) d \<notin> set evs))
     \<and> map url (scanResults (fst final)) = map url (scanResults s)
     \<and> (\<forall>r \<in> set (scanResults (fst final)). url r = UrlItem.url item \<longrightarrow>
            status r = Error \<and> desktop r = None \<and> error r = Some message)"
proof -
  from lookup_matches_store [OF same mem]
  obtain k where k: "findIndex (\<lambda>r. url r = UrlItem.url item) cap = Some k"
    and len: "k < length (scanResults s)" and uk: "url (scanResults s ! k) = UrlItem.url item"
    by blast
  have nodk: "desktop (scanResults s ! k) = None" using nod len uk by simp
  note at = failed_mobile_call_at_index [OF w run k len fail nodk once final]
  have urls: "map url (scanResults (fst final)) = map url (scanResults s)"
    unfolding final by (rule scanLoop_keeps_urls [OF w])
  then have l: "length (scanResults (fst final)) = length (scanResults s)" by (metis length_map)
  have d': "distinct (map url (scanResults (fst final)))" using d urls by simp
  have only: "r = scanResults (fst final) ! k" if "r \<in> set (scanResults (fst final))" "url r = UrlItem.url item" for r
  proof -
    from that(1) obtain j where j: "j < length (scanResults (fst final))" "scanResults (fst final) ! j = r"
      by (auto simp: in_set_conv_nth)
    from at uk have "url (scanResults (fst final) ! k) = UrlItem.url item" by auto
    with j that(2) have "url (scanResults (fst final) ! j) = url (scanResults (fst final) ! k)" by simp
    from distinct_url_index [OF d' j(1) _ this] len l have "j = k" by simp
    with j(2) show ?thesis by simp
  qed
  from at only urls show ?thesis by (auto simp del: scanLoop.simps)
qed

text \<open>
  C4. The code at a failing input. The list a, b is submitted on a fresh page; nothing is
  scanned, and the result list is a, b, both pending. Then the list b, c is submitted and
  confirmed. The loop of this submission looks its URLs up in the result list of the
  render of the submission, a, b, and writes by index to the new list b, c: b is found at
  index 1, which in the new list is the entry of c. The mobile request for b fails. The
  entry of c is marked \<open>error\<close>, the entry of b stays pending, and c, which the old list
  does not hold, is skipped: the only request of the run is the failed one.
\<close>

theorem C4_failure_is_recorded_on_another_entry:
  "map (\<lambda>r. (url r, status r)) (scanResults submittedAB) = [(''a'', Pending), (''b'', Pending)]
   \<and> map (\<lambda>r. (url r, status r, desktop r))
        (scanResults (fst (handleManualUrlsSubmit (failingAt 0) ''key'' ''b,c'' True (submittedAB, []))))
      = [(''b'', Pending, None), (''c'', Error, None)]
   \<and> snd (handleManualUrlsSubmit (failingAt 0) ''key'' ''b,c'' True (submittedAB, [])) = [Call ''b'' Mobile]"
  by (simp add: submittedAB_eq handleManualUrlsSubmit_def manualUrlItems_def parse_bc
      trim_def isWhite_def failingAt_def run_defs)

section \<open>The wait\<close>

lemma wholeWaits_refl: "wholeWaits tr tr"
  by (simp add: wholeWaits_def)

lemma wholeWaits_Call:
  assumes "wholeWaits tr0 tr"
  shows "wholeWaits tr0 (tr @ [Call u d])"
proof -
  from assms obtain evs where evs: "tr = tr0 @ evs" "\<forall>n. Pace n \<in> set evs \<longrightarrow> n = 3000"
    unfolding wholeWaits_def by blast
  have "tr @ [Call u d] = tr0 @ (evs @ [Call u d])" using evs(1) by simp
  moreover have "\<forall>n. Pace n \<in> set (evs @ [Call u d]) \<longrightarrow> n = 3000" using evs(2) by auto
  ultimately show ?thesis unfolding wholeWaits_def by blast
qed

lemma wholeWaits_Pace:
  assumes "wholeWaits tr0 tr"
  shows "wholeWaits tr0 (tr @ [Pace 3000])"
proof -
  from assms obtain evs where evs: "tr = tr0 @ evs" "\<forall>n. Pace n \<in> set evs \<longrightarrow> n = 3000"
    unfolding wholeWaits_def by blast
  have "tr @ [Pace 3000] = tr0 @ (evs @ [Pace 3000])" using evs(1) by simp
  moreover have "\<forall>n. Pace n \<in> set (evs @ [Pace 3000]) \<longrightarrow> n = 3000" using evs(2) by auto
  ultimately show ?thesis unfolding wholeWaits_def by blast
qed




section \<open>Overlapping runs\<close>

text \<open>
  C6. The code at a failing input. Both entries have failed and \<open>rescanErrorUrls\<close>
  runs. The request for a fails again; while the request for b is pending the user
  clicks Stop, which clears \<open>isScanning\<close> at once, so the Retry button of a is shown, and
  clicks it. The retry is not rejected: its three events lie between the mobile request
  of b and the rest of the first run. It also resets the cancellation flag, so the first
  run, though stopped, goes on to the desktop request of b.
\<close>

theorem C6_retry_starts_while_a_run_is_in_progress:
  "snd (rescanErrorUrls overlapping True (stateBothFailed, []))
     = [Call ''a'' Mobile, Call ''b'' Mobile,
        Call ''a'' Mobile, Pace 3000, Call ''a'' Desktop,
        Pace 3000, Call ''b'' Desktop]
   \<and> map status (scanResults (fst (rescanErrorUrls overlapping True (stateBothFailed, []))))
     = [Completed, Completed]"
  by (simp add: rescanErrorUrls_def overlapping_def stateBothFailed_def failedResult_def clickRetry_def
        retryButtonShown_def rescanSingleUrl_def quiet_def run_defs)

section \<open>The initial result list of a manual submission\<close>

lemma arrayFromSet_snoc:
  "arrayFromSet (xs @ [x]) = (if x \<in> set (arrayFromSet xs) then arrayFromSet xs else arrayFromSet xs @ [x])"
  by (simp add: arrayFromSet_def setAdd_def)

lemma set_arrayFromSet: "set (arrayFromSet xs) = set xs"
  by (induction xs rule: rev_induct) (auto simp: arrayFromSet_snoc, simp add: arrayFromSet_def)

lemma distinct_arrayFromSet: "distinct (arrayFromSet xs)"
  by (induction xs rule: rev_induct) (simp_all add: arrayFromSet_snoc, simp add: arrayFromSet_def)

lemma firstIndexOf_append: "x \<in> set xs \<Longrightarrow> firstIndexOf x (xs @ ys) = firstIndexOf x xs"
  by (simp add: firstIndexOf_def takeWhile_append1 [where P = "\<lambda>y. y \<noteq> x"])

lemma firstIndexOf_less: "x \<in> set xs \<Longrightarrow> firstIndexOf x xs < length xs"
  unfolding firstIndexOf_def by (induction xs) auto

lemma firstIndexOf_fresh: "x \<notin> set xs \<Longrightarrow> firstIndexOf x (xs @ [x]) = length xs"
  unfolding firstIndexOf_def by (induction xs) auto

lemma sorted_arrayFromSet:
  "sorted_wrt (\<lambda>u v. firstIndexOf u xs < firstIndexOf v xs) (arrayFromSet xs)"
proof (induction xs rule: rev_induct)
  case Nil
  show ?case by (simp add: arrayFromSet_def)
next
  case (snoc x xs)
  have old: "sorted_wrt (\<lambda>u v. firstIndexOf u (xs @ [x]) < firstIndexOf v (xs @ [x])) (arrayFromSet xs)"
    by (rule sorted_wrt_mono_rel [OF _ snoc.IH]) (simp add: set_arrayFromSet firstIndexOf_append)
  show ?case
  proof (cases "x \<in> set xs")
    case True
    with old show ?thesis by (simp add: arrayFromSet_snoc set_arrayFromSet)
  next
    case False
    have "\<forall>u \<in> set (arrayFromSet xs). firstIndexOf u (xs @ [x]) < firstIndexOf x (xs @ [x])"
      using False by (simp add: set_arrayFromSet firstIndexOf_append firstIndexOf_less firstIndexOf_fresh)
    with old False show ?thesis
      by (simp add: arrayFromSet_snoc set_arrayFromSet sorted_wrt_append)
  qed
qed

lemma url_initialResults: "map url (initialResults (manualUrlItems v)) = parseManualUrls v"
  by (simp add: initialResults_def manualUrlItems_def newResult_def o_def)

text \<open>
  The result list that \<open>handleManualUrlsSubmit\<close> builds from the text \<open>v\<close>, with
  \<open>inputUrls v\<close> the list of URL strings of the text (duplicates included): its URLs are
  pairwise distinct, they are exactly those of the input, they stand in the order of their
  first occurrences, and every entry is pending with no results and no error.
\<close>

lemma manual_initial_results_one_per_distinct_url:
  "distinct (map url (initialResults (manualUrlItems v)))
   \<and> set (map url (initialResults (manualUrlItems v))) = set (inputUrls v)
   \<and> sorted_wrt (\<lambda>u u'. firstIndexOf u (inputUrls v) < firstIndexOf u' (inputUrls v))
        (map url (initialResults (manualUrlItems v)))
   \<and> list_all (\<lambda>r. status r = Pending \<and> mobile r = None \<and> desktop r = None \<and> error r = None)
        (initialResults (manualUrlItems v))"
proof -
  have "list_all (\<lambda>r. status r = Pending \<and> mobile r = None \<and> desktop r = None \<and> error r = None)
        (initialResults (manualUrlItems v))"
    by (simp add: initialResults_def newResult_def list_all_iff)
  then show ?thesis
    unfolding url_initialResults parseManualUrls_def
    by (simp add: distinct_arrayFromSet set_arrayFromSet sorted_arrayFromSet)
qed

lemma manual_initial_results_example:
  "map url (initialResults (manualUrlItems '' a, b,a ,,c, b'')) = [''a'', ''b'', ''c'']
   \<and> inputUrls '' a, b,a ,,c, b'' = [''a'', ''b'', ''a'', ''c'', ''b'']
   \<and> distinct (map url (initialResults (manualUrlItems '' a, b,a ,,c, b'')))
   \<and> map status (initialResults (manualUrlItems '' a, b,a ,,c, b'')) = [Pending, Pending, Pending]"
proof -
  have a: "inputUrls '' a, b,a ,,c, b'' = [''a'', ''b'', ''a'', ''c'', ''b'']"
    by (simp add: inputUrls_def trim_def isWhite_def isSep_def)
  have p: "parseManualUrls '' a, b,a ,,c, b'' = [''a'', ''b'', ''c'']"
    by (simp add: parseManualUrls_def a arrayFromSet_def setAdd_def)
  have b: "map url (initialResults (manualUrlItems '' a, b,a ,,c, b'')) = [''a'', ''b'', ''c'']"
    by (simp add: url_initialResults p)
  have c: "map status (initialResults (manualUrlItems '' a, b,a ,,c, b'')) = [Pending, Pending, Pending]"
    by (simp add: initialResults_def manualUrlItems_def p newResult_def)
  from manual_initial_results_one_per_distinct_url [of "'' a, b,a ,,c, b''"] a b c show ?thesis by simp
qed

text \<open>
  On a first submission (no results yet) that passes the checks, this list is the result
  list of the page when \<open>handleManualUrlsSubmit\<close> has returned.
\<close>

lemma handleManualUrlsSubmit_first:
  assumes "trim apiKey \<noteq> []" and "trim v \<noteq> []" and "parseManualUrls v \<noteq> []" and "scanResults s = []"
  shows "scanResults (fst (handleManualUrlsSubmit w apiKey v confirmed (s, tr))) = initialResults (manualUrlItems v)"
proof -
  have loop: "scanLoop w [] queue (s', tr') = (s', tr')" for queue s' tr'
    by (induction queue) (simp_all add: scanItem_def)
  define s3 where "s3 = s\<lparr>scanResults := [], currentScanIndex := None, urls := manualUrlItems v,
       scanResults := initialResults (manualUrlItems v), isScanning := True, stopScanningRef := False\<rparr>"
  have "scanLoop w [] (manualUrlItems v) (s3, tr) = (s3, tr)"
    by (rule loop)
  with assms show ?thesis
    by (simp add: handleManualUrlsSubmit_def startPerformanceScanWithUrls_def s3_def Let_def)
qed

text \<open>
  Whatever the result list was before and whatever the run started by the submission
  does, the URLs of the result list after an accepted submission are those of
  \<open>parseManualUrls\<close>. (The user does nothing but possibly click Stop.)
\<close>

lemma handleManualUrlsSubmit_store:
  assumes "trim apiKey \<noteq> []" and "trim v \<noteq> []" and "parseManualUrls v \<noteq> []"
    and "scanResults s = [] \<or> confirmed" and w: "stopsOnly w"
  shows "map url (scanResults (fst (handleManualUrlsSubmit w apiKey v confirmed (s, tr)))) = parseManualUrls v"
proof -
  have "handleManualUrlsSubmit w apiKey v confirmed (s, tr)
      = startPerformanceScanWithUrls w (scanResults s) (manualUrlItems v)
          (s\<lparr>scanResults := [], currentScanIndex := None, urls := manualUrlItems v,
              scanResults := initialResults (manualUrlItems v)\<rparr>, tr)"
    using assms(1-4) by (auto simp: handleManualUrlsSubmit_def Let_def)
  then show ?thesis
    by (simp add: startPerformanceScanWithUrls_keeps_urls [OF w] url_initialResults)
qed

text \<open>
  C7. The code at a failing input. The sitemap lists one URL twice and both items are
  selected. \<open>startPerformanceScan\<close> makes one pending entry for each selected item and
  removes no duplicate, so the result list holds two pending entries for the one URL.
\<close>

theorem C7_sitemap_start_keeps_duplicates:
  "scanResults (fst (startPerformanceScan quiet (initialState duplicateUrls, [])))
     = [newResult ''https://a.test/'', newResult ''https://a.test/'']
   \<and> map status (scanResults (fst (startPerformanceScan quiet (initialState duplicateUrls, []))))
     = [Pending, Pending]
   \<and> \<not> distinct (map url (scanResults (fst (startPerformanceScan quiet (initialState duplicateUrls, [])))))"
  by (simp add: startPerformanceScan_def duplicateUrls_def initialState_def quiet_def run_defs)

section \<open>The pace after a failed item\<close>

text \<open>
  C8. The code at a failing input: the queue is a, b and the mobile request of a fails.
  The next event after the failed request is the mobile request of b; no wait lies
  between the two requests.
\<close>

theorem C8_no_pace_after_a_failed_item:
  "snd (startPerformanceScanWithUrls (failingAt 0) (map newResult [''a'', ''b'']) (queueOf [''a'', ''b''])
          (pendingState [''a'', ''b''], []))
     = [Call ''a'' Mobile, Call ''b'' Mobile, Pace 3000, Call ''b'' Desktop]"
  by (simp add: failingAt_def pendingState_def queueOf_def run_defs)

section \<open>Completed items\<close>

lemma allOk_mapAt: "allOk rs \<Longrightarrow> (\<And>r. completedOk r \<Longrightarrow> completedOk (f r)) \<Longrightarrow> allOk (mapAt k f rs)"
  using set_mapAt_subset [of k f rs] by (auto simp: allOk_def list_all_iff)

lemma completedOk_steps [simp]:
  "completedOk (newResult u)"
  "completedOk (r\<lparr>status := Scanning\<rparr>)"
  "completedOk (r\<lparr>status := Pending, error := None\<rparr>)"
  "completedOk (r\<lparr>status := Error, error := Some m\<rparr>)"
  "completedOk (r\<lparr>status := Completed, mobile := Some a, desktop := Some b, error := None\<rparr>)"
  by (simp_all add: completedOk_def newResult_def)

lemma allOk_initialResults [simp]: "allOk (initialResults items)"
  by (simp add: allOk_def initialResults_def list_all_iff)

lemma allOk_loop:
  assumes "allOk (scanResults s)"
    and "\<And>p s tr. allOk (scanResults s) \<Longrightarrow> allOk (scanResults (fst (interrupt w p (s, tr))))"
  shows "allOk (scanResults (fst (startPerformanceScanWithUrls w cap queue (s, tr))))"
proof -
  have "onResults (\<lambda>rs tr. allOk rs) (startPerformanceScanWithUrls w cap queue (s, tr))"
  proof (rule startPerformanceScanWithUrls_results)
    show "allOk (scanResults s)" by (rule assms(1))
    show "\<And>p run. onResults (\<lambda>rs tr. allOk rs) run \<Longrightarrow> onResults (\<lambda>rs tr. allOk rs) (interrupt w p run)"
      using assms(2) by (simp add: onResults_def) (metis prod.collapse)
  qed (simp_all add: allOk_mapAt)
  then show ?thesis by (simp add: onResults_def)
qed

lemma allOk_single:
  assumes "allOk (scanResults s)"
    and "\<And>p s tr. allOk (scanResults s) \<Longrightarrow> allOk (scanResults (fst (interrupt w p (s, tr))))"
  shows "allOk (scanResults (fst (rescanSingleUrl w index confirmed (s, tr))))"
proof -
  have "onResults (\<lambda>rs tr. allOk rs) (rescanSingleUrl w index confirmed (s, tr))"
  proof (rule rescanSingleUrl_results)
    show "allOk (scanResults s)" by (rule assms(1))
    show "\<And>p run. onResults (\<lambda>rs tr. allOk rs) run \<Longrightarrow> onResults (\<lambda>rs tr. allOk rs) (interrupt w p run)"
      using assms(2) by (simp add: onResults_def) (metis prod.collapse)
  qed (simp_all add: allOk_mapAt)
  then show ?thesis by (simp add: onResults_def)
qed

lemma allOk_userAction:
  "userAction f \<Longrightarrow> allOk (scanResults s) \<Longrightarrow> allOk (scanResults (fst (f (s, tr))))"
proof (induction f arbitrary: s tr rule: userAction.induct)
  case idle
  then show ?case by simp
next
  case stop
  then show ?case by (simp add: pressStop_def)
next
  case (start w)
  have "allOk (scanResults (fst (startPerformanceScanWithUrls w (scanResults s) (filter selected (urls s))
          (s\<lparr>scanResults := initialResults (filter selected (urls s))\<rparr>, tr))))"
    by (rule allOk_loop) (simp_all add: start.IH)
  with start.prems show ?case by (simp add: startPerformanceScan_def Let_def)
next
  case (manual w apiKey manualUrlsInput confirmed)
  have "allOk (scanResults (fst (startPerformanceScanWithUrls w (scanResults s) (manualUrlItems manualUrlsInput)
          (s\<lparr>scanResults := [], currentScanIndex := None, urls := manualUrlItems manualUrlsInput,
              scanResults := initialResults (manualUrlItems manualUrlsInput)\<rparr>, tr))))"
    by (rule allOk_loop) (simp_all add: manual.IH)
  with manual.prems show ?case by (simp add: handleManualUrlsSubmit_def Let_def)
next
  case (retryFailed w confirmed)
  let ?reset = "map (\<lambda>result. if status result = Error then result\<lparr>status := Pending, error := None\<rparr> else result) (scanResults s)"
  have "allOk ?reset" using retryFailed.prems by (auto simp: allOk_def list_all_iff)
  then have "allOk (scanResults (fst (startPerformanceScanWithUrls w (scanResults s)
       (map (\<lambda>r. \<lparr>UrlItem.url = url r, selected = True\<rparr>) (filter (\<lambda>r. status r = Error) (scanResults s)))
          (s\<lparr>scanResults := ?reset\<rparr>, tr))))"
    by (intro allOk_loop) (simp_all add: retryFailed.IH)
  with retryFailed.prems show ?case by (simp add: rescanErrorUrls_def Let_def)
next
  case (retryOne w index confirmed)
  show ?case by (rule allOk_single) (simp_all add: retryOne.prems retryOne.IH)
next
  case (thenDo f g)
  obtain s' tr' where e: "f (s, tr) = (s', tr')" by (metis prod.exhaust)
  with thenDo.IH(1) [OF thenDo.prems, of tr] have "allOk (scanResults s')" by simp
  from thenDo.IH(2) [OF this, of tr'] e show ?case by simp
qed

text \<open>
  C9. In every state reached from a freshly loaded page by clicks on Stop and by runs of
  \<open>startPerformanceScan\<close>, \<open>handleManualUrlsSubmit\<close>, \<open>rescanErrorUrls\<close> and
  \<open>rescanSingleUrl\<close>, in any order and also started while another run is waiting, every
  result with status \<open>completed\<close> has a mobile and a desktop result and no error.
\<close>

theorem C9_completed_items_have_both_results:
  "reachable s \<Longrightarrow> \<forall>r \<in> set (scanResults s).
      status r = Completed \<longrightarrow> mobile r \<noteq> None \<and> desktop r \<noteq> None \<and> error r = None"
proof -
  assume "reachable s"
  then have "allOk (scanResults s)"
  proof (induction rule: reachable.induct)
    case (initial us)
    show ?case by (simp add: initialState_def allOk_def)
  next
    case (step s f tr)
    then show ?case by (simp add: allOk_userAction)
  qed
  then show ?thesis by (simp add: allOk_def list_all_iff completedOk_def)
qed

theorem C9_witness:
  "reachable submittedTwice
   \<and> status (scanResults submittedTwice ! 0) = Completed
   \<and> mobile (scanResults submittedTwice ! 0) \<noteq> None
   \<and> desktop (scanResults submittedTwice ! 0) \<noteq> None
   \<and> error (scanResults submittedTwice ! 0) = None"
proof -
  have act: "userAction (handleManualUrlsSubmit quiet k v c)" for k v c
    by (rule userAction.manual) (simp add: quiet_def userAction.idle)
  have "reachable (fst (handleManualUrlsSubmit quiet ''key'' ''https://a.test/'' False (initialState [], [])))"
    by (rule reachable.step [OF reachable.initial act])
  then have r: "reachable submittedTwice"
    unfolding submittedTwice_def by (rule reachable.step [OF _ act])
  have c: "status (scanResults submittedTwice ! 0) = Completed"
    by (simp add: submittedTwice_eq completedResult_def)
  have "scanResults submittedTwice ! 0 \<in> set (scanResults submittedTwice)"
    by (simp add: submittedTwice_eq)
  with C9_completed_items_have_both_results [OF r] c r show ?thesis by blast
qed

section \<open>Properties of the issue extraction\<close>

lemma foldl_issueStep:
  "foldl (issueStep audits) acc ids =
     acc @ map (\<lambda>i. mkIssue i (the (audits i)))
             (filter (\<lambda>i. \<exists>a. audits i = Some a \<and> failedAudit a) ids)"
proof (induction ids arbitrary: acc)
  case Nil
  show ?case by simp
next
  case (Cons i ids)
  have step: "issueStep audits acc i =
      acc @ (if \<exists>a. audits i = Some a \<and> failedAudit a then [mkIssue i (the (audits i))] else [])"
    by (cases "audits i") (simp_all add: issueStep_def)
  show ?case
    by (simp add: Cons.IH step)
qed

lemma extractIssues_filter:
  "extractIssues audits =
     map (\<lambda>i. mkIssue i (the (audits i)))
       (filter (\<lambda>i. \<exists>a. audits i = Some a \<and> failedAudit a) relevantAuditIds)"
  by (simp add: extractIssues_def foldl_issueStep)

lemma issue_id_mkIssue: "issue_id (mkIssue i a) = i"
  by (simp add: mkIssue_def)

lemma map_issue_id_extractIssues:
  "map issue_id (extractIssues audits) =
     filter (\<lambda>i. \<exists>a. audits i = Some a \<and> failedAudit a) relevantAuditIds"
  by (simp add: extractIssues_filter o_def issue_id_mkIssue)

lemma length_relevantAuditIds: "length relevantAuditIds = 19"
  by (simp add: relevantAuditIds_def)

lemma distinct_relevantAuditIds: "distinct relevantAuditIds"
  by (simp add: relevantAuditIds_def)

text \<open>
  C10. Every issue the route returns has a score that is \<open>null\<close> or strictly below 0.9
  and an id among the nineteen relevant audit ids; the ids of the issues, read in order,
  are a subsequence of the fixed list of audit ids (and no id occurs twice).
\<close>

theorem C10_issues_failed_relevant_ordered:
  "length relevantAuditIds = 19
   \<and> list_all (\<lambda>issue. (score issue = None \<or> (\<exists>x. score issue = Some x \<and> x < 9 / 10))
                      \<and> issue_id issue \<in> set relevantAuditIds) (extractIssues audits)
   \<and> subseq (map issue_id (extractIssues audits)) relevantAuditIds
   \<and> distinct (map issue_id (extractIssues audits))"
proof -
  have a: "list_all (\<lambda>issue. (score issue = None \<or> (\<exists>x. score issue = Some x \<and> x < 9 / 10))
                      \<and> issue_id issue \<in> set relevantAuditIds) (extractIssues audits)"
    unfolding extractIssues_filter list_all_iff
    by (auto simp: mkIssue_def failedAudit_def split: option.splits)
  have b: "subseq (map issue_id (extractIssues audits)) relevantAuditIds"
    unfolding map_issue_id_extractIssues by (rule subseq_filter_left)
  have c: "distinct (map issue_id (extractIssues audits))"
    unfolding map_issue_id_extractIssues
    by (rule distinct_filter) (rule distinct_relevantAuditIds)
  from a b c length_relevantAuditIds show ?thesis by blast
qed

theorem C10_witness:
  "map issue_id (extractIssues sampleAudits) = [''speed-index'', ''image-alt'']
   \<and> map score (extractIssues sampleAudits) = [Some (1 / 2), None]
   \<and> subseq (map issue_id (extractIssues sampleAudits)) relevantAuditIds"
proof -
  have "map issue_id (extractIssues sampleAudits) = [''speed-index'', ''image-alt'']"
    "map score (extractIssues sampleAudits) = [Some (1 / 2), None]"
    by (simp_all add: extractIssues_def relevantAuditIds_def issueStep_def sampleAudits_def
          failedAudit_def mkIssue_def)
  with C10_issues_failed_relevant_ordered [of sampleAudits] show ?thesis by simp
qed

end
